theory Spec2Isabelle
  imports Main "HOL-Library.Product_Lexorder" "HOL-Library.Signed_Division"
begin

section \<open>Constants and data of the channel graph (ChannelGraph.cpp)\<close>

text \<open>
  The C++ type \<open>int\<close> has 32 bits. A sum or a product of costs or of state numbers that
  leaves its range wraps around in two's complement, which is what the compiled code does;
  \<open>int32\<close> writes this out on the unbounded \<open>int\<close> of the model, and \<open>sdiv\<close> and \<open>smod\<close>
  are the division and the remainder of C++, which round towards zero. Channel numbers and
  widths stay below a few hundred and are added without \<open>int32\<close>.
  \<open>INF\<close> is \<open>numeric_limits<int>::max()\<close>; the name carries a suffix because \<open>INF\<close> is
  reserved syntax.
\<close>

definition int32 :: "int \<Rightarrow> int" where
  "int32 x = (x + 2147483648) mod 4294967296 - 2147483648"

definition CHANNELS :: int where
  "CHANNELS = 100"

definition INF_val :: int where
  "INF_val = 2147483647"

record Edge =
  to :: int
  channel_costs :: "int list"

record ChannelGraph =
  node_count :: int
  adj_list :: "Edge list list"
  node_support_convert :: "bool list"

text \<open>
  \<open>out_of_range\<close>, \<open>invalid_argument\<close> and \<open>runtime_error\<close> are the three exceptions
  the sources throw. \<open>UndefinedAccess\<close> stands for an unchecked out-of-bounds
  \<open>operator[]\<close>, which C++ leaves undefined.
\<close>

datatype error = OutOfRange | InvalidArgument | RuntimeError | UndefinedAccess

definition new_ChannelGraph :: "int \<Rightarrow> ChannelGraph" where
  "new_ChannelGraph n =
     \<lparr>node_count = n, adj_list = replicate (nat n) [], node_support_convert = replicate (nat n) False\<rparr>"

definition emplace_edge :: "int \<Rightarrow> Edge \<Rightarrow> Edge list list \<Rightarrow> Edge list list" where
  "emplace_edge u e adj = adj[nat u := adj ! nat u @ [e]]"

definition addEdge :: "ChannelGraph \<Rightarrow> int \<Rightarrow> int \<Rightarrow> int list \<Rightarrow> error + ChannelGraph" where
  "addEdge g u v costs =
     (if u < 0 \<or> u \<ge> node_count g \<or> v < 0 \<or> v \<ge> node_count g then Inl OutOfRange
      else if int (length costs) \<noteq> CHANNELS then Inl InvalidArgument
      else Inr (g\<lparr>adj_list :=
                  emplace_edge v \<lparr>to = u, channel_costs = costs\<rparr>
                    (emplace_edge u \<lparr>to = v, channel_costs = costs\<rparr> (adj_list g))\<rparr>))"

definition setNodeConversion :: "ChannelGraph \<Rightarrow> int \<Rightarrow> bool \<Rightarrow> error + ChannelGraph" where
  "setNodeConversion g node support =
     (if node < 0 \<or> node \<ge> node_count g then Inl OutOfRange
      else Inr (g\<lparr>node_support_convert := (node_support_convert g)[nat node := support]\<rparr>))"

section \<open>The search of ChannelGraph.cpp\<close>

text \<open>
  \<open>dist\<close> and \<open>prev\<close> are the two-dimensional vectors of \<open>findShortestPath\<close>, read and
  written as \<open>dist[v][ch]\<close>; they are total functions here, with the initial value of the
  vector everywhere. The priority queue holds tuples \<open>(cost, node, start channel)\<close> under
  \<open>greater<tuple>\<close>, so \<open>top\<close> is the least tuple in the lexicographic order: the queue
  is kept as an ascending list, \<open>push\<close> is \<open>insort\<close>, \<open>top\<close> is the head and \<open>pop\<close>
  drops it.
\<close>

record search_state =
  dist :: "int \<Rightarrow> int \<Rightarrow> int"
  prev :: "int \<Rightarrow> int \<Rightarrow> int \<times> int"
  pq :: "(int \<times> int \<times> int) list"

definition calculateChannelCost :: "int list \<Rightarrow> int \<Rightarrow> int \<Rightarrow> int" where
  "calculateChannelCost costs start_ch width =
     (if int32 (start_ch + width) > CHANNELS then INF_val
      else fold (\<lambda>i total_cost. int32 (total_cost + costs ! nat (start_ch + i))) [0..width - 1] 0)"

partial_function (option) reconstruct_loop ::
  "(int \<Rightarrow> int \<Rightarrow> int \<times> int) \<Rightarrow> int \<Rightarrow> int \<Rightarrow> (int \<times> int) list \<Rightarrow> (int \<times> int) list option" where
  "reconstruct_loop prv current_node current_ch path =
     (if current_node \<noteq> -1
      then reconstruct_loop prv (fst (prv current_node current_ch)) (snd (prv current_node current_ch))
             (path @ [(current_node, current_ch)])
      else Some path)"

declare reconstruct_loop.simps [code]

definition reconstructPath ::
  "(int \<Rightarrow> int \<Rightarrow> int \<times> int) \<Rightarrow> int \<Rightarrow> int \<Rightarrow> int \<Rightarrow> int \<Rightarrow> ((int \<times> int) list \<times> int) option" where
  "reconstructPath prv source target target_ch cost =
     map_option (\<lambda>path. (rev path, cost)) (reconstruct_loop prv target target_ch [])"

definition possible_start_channels :: "ChannelGraph \<Rightarrow> int \<Rightarrow> int \<Rightarrow> int \<Rightarrow> int \<Rightarrow> int list" where
  "possible_start_channels g source width u u_start_ch =
     (if node_support_convert g ! nat u \<or> u = source then [0..CHANNELS - width] else [u_start_ch])"

definition relax :: "int \<Rightarrow> int \<Rightarrow> int \<Rightarrow> int \<Rightarrow> Edge \<Rightarrow> int \<Rightarrow> search_state \<Rightarrow> search_state" where
  "relax width current_cost u u_start_ch edge v_start_ch st =
     (let channel_cost = calculateChannelCost (channel_costs edge) v_start_ch width in
      if channel_cost = INF_val then st
      else let new_cost = int32 (current_cost + channel_cost); v = to edge in
        if new_cost < dist st v v_start_ch
        then st\<lparr>dist := (dist st)(v := (dist st v)(v_start_ch := new_cost)),
                prev := (prev st)(v := (prev st v)(v_start_ch := (u, u_start_ch))),
                pq := insort (new_cost, v, v_start_ch) (pq st)\<rparr>
        else st)"

definition expand :: "ChannelGraph \<Rightarrow> int \<Rightarrow> int \<Rightarrow> int \<Rightarrow> int \<Rightarrow> int \<Rightarrow> search_state \<Rightarrow> search_state" where
  "expand g source width current_cost u u_start_ch st =
     fold (\<lambda>edge. fold (relax width current_cost u u_start_ch edge)
                       (possible_start_channels g source width u u_start_ch))
          (adj_list g ! nat u) st"

definition top_cost :: "search_state \<Rightarrow> int" where
  "top_cost st = fst (hd (pq st))"

definition top_node :: "search_state \<Rightarrow> int" where
  "top_node st = fst (snd (hd (pq st)))"

definition top_ch :: "search_state \<Rightarrow> int" where
  "top_ch st = snd (snd (hd (pq st)))"

definition pop :: "search_state \<Rightarrow> search_state" where
  "pop st = st\<lparr>pq := tl (pq st)\<rparr>"

text \<open>
  The \<open>while (!pq.empty())\<close> loop. A run that never leaves the loop has the value \<open>None\<close>.
  The target test comes before the test for a stale queue entry, as in the source.
\<close>

partial_function (option) search_loop ::
  "ChannelGraph \<Rightarrow> int \<Rightarrow> int \<Rightarrow> int \<Rightarrow> search_state \<Rightarrow> ((int \<times> int) list \<times> int) option" where
  "search_loop g source target width st =
     (if pq st = [] then Some ([], INF_val)
      else if top_node st = target
        then reconstructPath (prev (pop st)) source target (top_ch st) (top_cost st)
      else if top_cost st > dist st (top_node st) (top_ch st)
        then search_loop g source target width (pop st)
      else search_loop g source target width
             (expand g source width (top_cost st) (top_node st) (top_ch st) (pop st)))"

declare search_loop.simps [code]

definition init_source :: "int \<Rightarrow> int \<Rightarrow> search_state \<Rightarrow> search_state" where
  "init_source source start_ch st =
     st\<lparr>dist := (dist st)(source := (dist st source)(start_ch := 0)),
        pq := insort (0, source, start_ch) (pq st)\<rparr>"

definition init_state :: "int \<Rightarrow> int \<Rightarrow> search_state" where
  "init_state source width =
     fold (init_source source) [0..CHANNELS - width]
          \<lparr>dist = (\<lambda>_ _. INF_val), prev = (\<lambda>_ _. (-1, -1)), pq = []\<rparr>"

definition findShortestPath ::
  "ChannelGraph \<Rightarrow> int \<Rightarrow> int \<Rightarrow> int \<Rightarrow> (error + (int \<times> int) list \<times> int) option" where
  "findShortestPath g source target width =
     (if width < 1 \<or> width > 3 then Some (Inl InvalidArgument)
      else if source < 0 \<or> source \<ge> node_count g \<or> target < 0 \<or> target \<ge> node_count g
        then Some (Inl OutOfRange)
      else map_option Inr (search_loop g source target width (init_state source width)))"

section \<open>The initial state of the search\<close>

text \<open>
  The initialisation loop of \<open>findShortestPath\<close> in closed form: every start channel
  \<open>0 .. CHANNELS - width\<close> of the source has distance \<open>0\<close> and one queue entry.
\<close>

lemma init_source_dist:
  "dist (fold (init_source s) cs st) v c = (if v = s \<and> c \<in> set cs then 0 else dist st v c)"
  by (induction cs arbitrary: st) (auto simp: init_source_def)

lemma init_source_prev: "prev (fold (init_source s) cs st) = prev st"
  by (induction cs arbitrary: st) (auto simp: init_source_def)

lemma init_source_pq_set:
  "set (pq (fold (init_source s) cs st)) = set (pq st) \<union> (\<lambda>c. (0, s, c)) ` set cs"
  by (induction cs arbitrary: st) (auto simp: init_source_def set_insort_key)

lemma init_source_pq_sorted:
  "sorted (pq st) \<Longrightarrow> sorted (pq (fold (init_source s) cs st))"
  by (induction cs arbitrary: st) (auto simp: init_source_def sorted_insort)

lemma init_state_dist:
  "dist (init_state s w) v c = (if v = s \<and> 0 \<le> c \<and> c \<le> CHANNELS - w then 0 else INF_val)"
  by (simp add: init_state_def init_source_dist)

lemma init_state_prev: "prev (init_state s w) = (\<lambda>_ _. (-1, -1))"
  by (simp add: init_state_def init_source_prev)

lemma init_state_pq_set:
  "set (pq (init_state s w)) = (\<lambda>c. (0, s, c)) ` {0..CHANNELS - w}"
  by (simp add: init_state_def init_source_pq_set)

lemma init_state_pq_sorted: "sorted (pq (init_state s w))"
  by (simp add: init_state_def init_source_pq_sorted)

lemma sorted_hd_le: "sorted xs \<Longrightarrow> x \<in> set xs \<Longrightarrow> hd xs \<le> x"
  by (cases xs) auto

lemma init_state_hd:
  assumes "w \<le> CHANNELS"
  shows "hd (pq (init_state s w)) = (0, s, 0)"
proof -
  have mem: "(0, s, 0) \<in> set (pq (init_state s w))"
    using assms by (simp add: init_state_pq_set)
  then have ne: "pq (init_state s w) \<noteq> []" by auto
  then have "hd (pq (init_state s w)) \<in> set (pq (init_state s w))" by simp
  then obtain c where c: "hd (pq (init_state s w)) = (0, s, c)" "0 \<le> c"
    by (auto simp: init_state_pq_set)
  have "hd (pq (init_state s w)) \<le> (0, s, 0)"
    using sorted_hd_le [OF init_state_pq_sorted mem] .
  with c show ?thesis by (simp add: less_eq_prod_def)
qed

lemma reconstructPath_single:
  assumes "n \<noteq> -1" "fst (prv n c) = -1"
  shows "reconstructPath prv s n c k = Some ([(n, c)], k)"
proof -
  have "reconstruct_loop prv n c [] = reconstruct_loop prv (-1) (snd (prv n c)) [(n, c)]"
    using assms by (subst reconstruct_loop.simps) simp
  also have "\<dots> = Some [(n, c)]"
    by (subst reconstruct_loop.simps) simp
  finally show ?thesis by (simp add: reconstructPath_def)
qed

lemma findShortestPath_same_node:
  assumes "1 \<le> w" "w \<le> 3" "0 \<le> s" "s < node_count g"
  shows "findShortestPath g s s w = Some (Inr ([(s, 0)], 0))"
proof -
  have w: "w \<le> CHANNELS" using assms by (simp add: CHANNELS_def)
  have hd: "hd (pq (init_state s w)) = (0, s, 0)" by (rule init_state_hd [OF w])
  have ne: "pq (init_state s w) \<noteq> []"
    using w init_state_pq_set [of s w] by auto
  have "search_loop g s s w (init_state s w) =
          reconstructPath (prev (pop (init_state s w))) s s 0 0"
    using ne hd by (subst search_loop.simps) (simp add: top_node_def top_ch_def top_cost_def)
  also have "\<dots> = Some ([(s, 0)], 0)"
    using assms by (intro reconstructPath_single) (auto simp: pop_def init_state_prev)
  finally show ?thesis using assms by (simp add: findShortestPath_def)
qed

section \<open>Invariants of the search loop\<close>

text \<open>
  An invariant rule for \<open>search_loop\<close>: a property that holds of the initial state and
  is kept by both continuing branches of the loop body holds when the loop returns.
\<close>

lemma search_loop_rule:
  assumes run: "search_loop g s t w st = Some r"
    and init: "I st"
    and stale: "\<And>st. I st \<Longrightarrow> pq st \<noteq> [] \<Longrightarrow> top_node st \<noteq> t \<Longrightarrow>
                  top_cost st > dist st (top_node st) (top_ch st) \<Longrightarrow> I (pop st)"
    and expand: "\<And>st. I st \<Longrightarrow> pq st \<noteq> [] \<Longrightarrow> top_node st \<noteq> t \<Longrightarrow>
                  \<not> top_cost st > dist st (top_node st) (top_ch st) \<Longrightarrow>
                  I (expand g s w (top_cost st) (top_node st) (top_ch st) (pop st))"
    and empty: "\<And>st. I st \<Longrightarrow> pq st = [] \<Longrightarrow> Q ([], INF_val)"
    and found: "\<And>st r. I st \<Longrightarrow> pq st \<noteq> [] \<Longrightarrow> top_node st = t \<Longrightarrow>
                  reconstructPath (prev st) s t (top_ch st) (top_cost st) = Some r \<Longrightarrow> Q r"
  shows "Q r"
proof -
  let ?P = "\<lambda>g' s' t' w' st r. g' = g \<and> s' = s \<and> t' = t \<and> w' = w \<and> I st \<longrightarrow> Q r"
  have "?P g s t w st r"
  proof (rule search_loop.raw_induct [where P = ?P, OF _ run], goal_cases)
    case (1 loop ga sa ta wa sta ra)
    show ?case
    proof (intro impI, elim conjE)
      assume eqs: "ga = g" "sa = s" "ta = t" "wa = w" and Ist: "I sta"
      note body = 1(2) [unfolded eqs] and IH = 1(1)
      show "Q ra"
      proof (cases "pq sta = []")
        case True
        with body have "ra = ([], INF_val)" by simp
        with empty [OF Ist True] show ?thesis by simp
      next
        case ne: False
        show ?thesis
        proof (cases "top_node sta = t")
          case True
          with ne body
          have "reconstructPath (prev sta) s t (top_ch sta) (top_cost sta) = Some ra"
            by (simp add: pop_def)
          from found [OF Ist ne True this] show ?thesis .
        next
          case nt: False
          show ?thesis
          proof (cases "top_cost sta > dist sta (top_node sta) (top_ch sta)")
            case True
            with ne nt body have "loop g s t w (pop sta) = Some ra" by simp
            from IH [OF this] stale [OF Ist ne nt True]
            show ?thesis by simp
          next
            case False
            with ne nt body
            have "loop g s t w (expand g s w (top_cost sta) (top_node sta) (top_ch sta) (pop sta)) = Some ra"
              by simp
            from IH [OF this] expand [OF Ist ne nt False]
            show ?thesis by simp
          qed
        qed
      qed
    qed
  qed
  with init show ?thesis by simp
qed

text \<open>
  \<open>is_chain prv n c xs\<close>: the list \<open>xs\<close> is what \<open>reconstructPath\<close> collects from
  \<open>(n, c)\<close> on, following the predecessor links until the node \<open>-1\<close>.
\<close>

fun is_chain :: "(int \<Rightarrow> int \<Rightarrow> int \<times> int) \<Rightarrow> int \<Rightarrow> int \<Rightarrow> (int \<times> int) list \<Rightarrow> bool" where
  "is_chain prv n c [] = (n = -1)"
| "is_chain prv n c (x # xs) =
     (n \<noteq> -1 \<and> x = (n, c) \<and> is_chain prv (fst (prv n c)) (snd (prv n c)) xs)"

definition in_range :: "int \<Rightarrow> int \<Rightarrow> bool" where
  "in_range w ch \<longleftrightarrow> 0 \<le> ch \<and> ch \<le> CHANNELS - w"

definition range_ok :: "int \<Rightarrow> search_state \<Rightarrow> bool" where
  "range_ok w st \<longleftrightarrow>
     (\<forall>x \<in> set (pq st). in_range w (snd (snd x))) \<and>
     (\<forall>v ch. fst (prev st v ch) \<noteq> -1 \<longrightarrow> in_range w (snd (prev st v ch)))"

lemma reconstruct_loop_chain:
  assumes "reconstruct_loop prv n c acc = Some p"
  shows "\<exists>ch. p = acc @ ch \<and> is_chain prv n c ch"
proof -
  let ?P = "\<lambda>prv n c acc p. \<exists>ch. p = acc @ ch \<and> is_chain prv n c ch"
  show ?thesis
  proof (rule reconstruct_loop.raw_induct [where P = ?P, OF _ assms], goal_cases)
    case (1 loop prv n c acc p)
    show ?case
    proof (cases "n = -1")
      case True
      with 1(2) show ?thesis by simp
    next
      case False
      with 1(2) have "loop prv (fst (prv n c)) (snd (prv n c)) (acc @ [(n, c)]) = Some p"
        by simp
      from 1(1) [OF this] obtain ch where
        "p = (acc @ [(n, c)]) @ ch" "is_chain prv (fst (prv n c)) (snd (prv n c)) ch"
        by blast
      with False have "p = acc @ ((n, c) # ch) \<and> is_chain prv n c ((n, c) # ch)" by simp
      then show ?thesis by blast
    qed
  qed
qed

lemma reconstructPath_chain:
  assumes "reconstructPath prv s t tc cost = Some (path, k)"
  shows "k = cost \<and> is_chain prv t tc (rev path)"
proof -
  from assms obtain p where p: "reconstruct_loop prv t tc [] = Some p" "path = rev p" "k = cost"
    by (auto simp: reconstructPath_def)
  from reconstruct_loop_chain [OF p(1)] p show ?thesis by auto
qed

lemma fold_invariant:
  assumes "P s" and "\<And>x s. x \<in> set xs \<Longrightarrow> P s \<Longrightarrow> P (f x s)"
  shows "P (fold f xs s)"
  using assms by (induction xs arbitrary: s) auto

lemma expand_invariant:
  assumes "P st"
    and "\<And>e vc st. e \<in> set (adj_list g ! nat u) \<Longrightarrow>
           vc \<in> set (possible_start_channels g s w u uc) \<Longrightarrow> P st \<Longrightarrow>
           P (relax w c0 u uc e vc st)"
  shows "P (expand g s w c0 u uc st)"
  unfolding expand_def
proof (rule fold_invariant [where P = P])
  show "P st" by fact
next
  fix e st'
  assume "e \<in> set (adj_list g ! nat u)" "P st'"
  then show "P (fold (relax w c0 u uc e) (possible_start_channels g s w u uc) st')"
    by (intro fold_invariant [where P = P]) (auto intro: assms(2))
qed

lemma relax_cases:
  obtains (skip) "relax w c0 u uc e vc st = st"
  | (update) "calculateChannelCost (channel_costs e) vc w \<noteq> INF_val"
      "int32 (c0 + calculateChannelCost (channel_costs e) vc w) < dist st (to e) vc"
      "relax w c0 u uc e vc st =
         st\<lparr>dist := (dist st)(to e := (dist st (to e))
                      (vc := int32 (c0 + calculateChannelCost (channel_costs e) vc w))),
            prev := (prev st)(to e := (prev st (to e))(vc := (u, uc))),
            pq := insort (int32 (c0 + calculateChannelCost (channel_costs e) vc w), to e, vc) (pq st)\<rparr>"
proof (cases "calculateChannelCost (channel_costs e) vc w \<noteq> INF_val \<and>
              int32 (c0 + calculateChannelCost (channel_costs e) vc w) < dist st (to e) vc")
  case True
  then show ?thesis by (intro update) (simp_all add: relax_def Let_def)
next
  case False
  then show ?thesis by (intro skip) (auto simp: relax_def Let_def)
qed

lemma possible_in_range:
  "in_range w uc \<Longrightarrow> vc \<in> set (possible_start_channels g s w u uc) \<Longrightarrow> in_range w vc"
  by (auto simp: possible_start_channels_def in_range_def split: if_splits)

lemma range_ok_relax:
  assumes "range_ok w st" "in_range w uc" "in_range w vc"
  shows "range_ok w (relax w c0 u uc e vc st)"
proof (cases rule: relax_cases [of w c0 u uc e vc st])
  case skip
  with assms show ?thesis by simp
next
  case update
  with assms show ?thesis
    by (auto simp: range_ok_def set_insort_key)
qed

lemma top_in_pq: "pq st \<noteq> [] \<Longrightarrow> (top_cost st, top_node st, top_ch st) \<in> set (pq st)"
  by (cases "pq st") (auto simp: top_cost_def top_node_def top_ch_def)

lemma set_pq_pop: "set (pq (pop st)) \<subseteq> set (pq st)"
  by (cases "pq st") (auto simp: pop_def)

lemma prev_pop [simp]: "prev (pop st) = prev st"
  by (simp add: pop_def)

lemma dist_pop [simp]: "dist (pop st) = dist st"
  by (simp add: pop_def)

lemma range_ok_pop: "range_ok w st \<Longrightarrow> range_ok w (pop st)"
  using set_pq_pop [of st] by (auto simp: range_ok_def)

lemma range_ok_init: "range_ok w (init_state s w)"
  by (auto simp: range_ok_def init_state_pq_set init_state_prev in_range_def)

lemma is_chain_in_range:
  assumes "is_chain prv n c ch" "in_range w c"
    and "\<And>v ch. fst (prv v ch) \<noteq> -1 \<Longrightarrow> in_range w (snd (prv v ch))"
  shows "\<forall>x \<in> set ch. in_range w (snd x)"
  using assms(1,2)
proof (induction ch arbitrary: n c)
  case Nil
  then show ?case by simp
next
  case (Cons x xs)
  show ?case
  proof (cases xs)
    case Nil
    with Cons.prems show ?thesis by auto
  next
    case (Cons y ys)
    with Cons.prems have "fst (prv n c) \<noteq> -1" by auto
    from assms(3) [OF this] Cons.IH [of "fst (prv n c)" "snd (prv n c)"] Cons.prems
    show ?thesis by auto
  qed
qed

lemma search_loop_in_range:
  assumes "search_loop g s t w (init_state s w) = Some (path, cost)"
  shows "\<forall>x \<in> set path. in_range w (snd x)"
proof -
  let ?Q = "\<lambda>r. \<forall>x \<in> set (fst r). in_range w (snd x)"
  have "?Q (path, cost)"
  proof (rule search_loop_rule [where I = "range_ok w" and Q = ?Q])
    show "search_loop g s t w (init_state s w) = Some (path, cost)" by fact
    show "range_ok w (init_state s w)" by (rule range_ok_init)
  next
    fix st assume "range_ok w st"
    then show "range_ok w (pop st)" by (rule range_ok_pop)
  next
    fix st assume I: "range_ok w st" and ne: "pq st \<noteq> []"
    from top_in_pq [OF ne] I have r: "in_range w (top_ch st)" by (auto simp: range_ok_def)
    show "range_ok w (expand g s w (top_cost st) (top_node st) (top_ch st) (pop st))"
    proof (rule expand_invariant [where P = "range_ok w"])
      show "range_ok w (pop st)" by (rule range_ok_pop [OF I])
    next
      fix e vc st'
      assume "vc \<in> set (possible_start_channels g s w (top_node st) (top_ch st))" "range_ok w st'"
      then show "range_ok w (relax w (top_cost st) (top_node st) (top_ch st) e vc st')"
        by (intro range_ok_relax r possible_in_range [OF r])
    qed
  next
    fix st assume "pq st = []"
    show "?Q ([], INF_val)" by simp
  next
    fix st r
    assume I: "range_ok w st" and ne: "pq st \<noteq> []"
      and rc: "reconstructPath (prev st) s t (top_ch st) (top_cost st) = Some r"
    from top_in_pq [OF ne] I have r: "in_range w (top_ch st)" by (auto simp: range_ok_def)
    from rc have "reconstructPath (prev st) s t (top_ch st) (top_cost st) = Some (fst r, snd r)"
      by simp
    from reconstructPath_chain [OF this]
    have "is_chain (prev st) t (top_ch st) (rev (fst r))" by simp
    from is_chain_in_range [OF this r] I have "\<forall>x \<in> set (rev (fst r)). in_range w (snd x)"
      by (auto simp: range_ok_def)
    then show "?Q r" by simp
  qed
  then show ?thesis by simp
qed


section \<open>Valid graphs and the invariant of the label-setting search\<close>

text \<open>
  A valid graph is what the constructor, \<open>addEdge\<close> and \<open>setNodeConversion\<close> build:
  \<open>node_count\<close> adjacency lists and conversion flags, every edge leading to a node of
  the graph and carrying \<open>CHANNELS\<close> costs. The search further assumes that no cost is
  negative; the code does not check it.

  \<open>segment_sum\<close> is the sum of the costs of a segment as a number, without wrap-around.
  \<open>bounded_costs g width\<close> keeps the sums of the search inside the range of \<open>int\<close>: the
  cost of a segment of the width is either \<open>INF\<close>, which the search skips, or so small that
  as many segments as there are states, \<open>node_count * CHANNELS\<close>, still cost at most \<open>INF\<close>.

  \<open>reach g source width v ch\<close>: the state \<open>(v, ch)\<close> is the end of a sequence of edges
  from the source that respects the width (a start channel in \<open>[0, CHANNELS - width]\<close>)
  and continuity (the channels offered by \<open>possible_start_channels\<close>).
\<close>

definition valid_graph :: "ChannelGraph \<Rightarrow> bool" where
  "valid_graph g \<longleftrightarrow>
     0 \<le> node_count g \<and> length (adj_list g) = nat (node_count g) \<and>
     length (node_support_convert g) = nat (node_count g) \<and>
     (\<forall>es \<in> set (adj_list g). \<forall>e \<in> set es.
        0 \<le> to e \<and> to e < node_count g \<and> int (length (channel_costs e)) = CHANNELS)"

definition nonneg_costs :: "ChannelGraph \<Rightarrow> bool" where
  "nonneg_costs g \<longleftrightarrow> (\<forall>es \<in> set (adj_list g). \<forall>e \<in> set es. \<forall>x \<in> set (channel_costs e). 0 \<le> x)"

definition segment_sum :: "int list \<Rightarrow> int \<Rightarrow> int \<Rightarrow> int" where
  "segment_sum costs start_ch width =
     sum_list (map (\<lambda>i. costs ! nat (start_ch + i)) [0..width - 1])"

definition bounded_costs :: "ChannelGraph \<Rightarrow> int \<Rightarrow> bool" where
  "bounded_costs g width \<longleftrightarrow>
     (\<forall>es \<in> set (adj_list g). \<forall>e \<in> set es. \<forall>ch \<in> {0..CHANNELS - width}.
        segment_sum (channel_costs e) ch width = INF_val \<or>
        segment_sum (channel_costs e) ch width * (node_count g * CHANNELS) \<le> INF_val)"

inductive reach :: "ChannelGraph \<Rightarrow> int \<Rightarrow> int \<Rightarrow> int \<Rightarrow> int \<Rightarrow> bool" for g source width where
  reach_source: "0 \<le> ch \<Longrightarrow> ch \<le> CHANNELS - width \<Longrightarrow> reach g source width source ch"
| reach_edge: "reach g source width u u_start_ch \<Longrightarrow> edge \<in> set (adj_list g ! nat u) \<Longrightarrow>
     v_start_ch \<in> set (possible_start_channels g source width u u_start_ch) \<Longrightarrow>
     reach g source width (to edge) v_start_ch"

text \<open>
  \<open>cost_bound g w B\<close>: \<open>B\<close> bounds the cost of every segment that is not \<open>INF\<close>, and
  \<open>B\<close> times the number of states is at most \<open>INF\<close>.
\<close>

definition cost_bound :: "ChannelGraph \<Rightarrow> int \<Rightarrow> int \<Rightarrow> bool" where
  "cost_bound g w B \<longleftrightarrow>
     1 \<le> w \<and> 0 < node_count g \<and> 0 \<le> B \<and> B * (node_count g * CHANNELS) \<le> INF_val \<and>
     (\<forall>es \<in> set (adj_list g). \<forall>e \<in> set es. \<forall>ch \<in> {0..CHANNELS - w}.
        segment_sum (channel_costs e) ch w = INF_val \<or> segment_sum (channel_costs e) ch w \<le> B)"

definition pq_ok :: "ChannelGraph \<Rightarrow> int \<Rightarrow> int \<Rightarrow> search_state \<Rightarrow> bool" where
  "pq_ok g w m st \<longleftrightarrow>
     0 \<le> m \<and> m < INF_val \<and> sorted (pq st) \<and>
     (\<forall>v ch. 0 \<le> dist st v ch \<and> dist st v ch \<le> INF_val) \<and>
     (\<forall>x \<in> set (pq st). m \<le> fst x \<and> fst x < INF_val \<and>
        dist st (fst (snd x)) (snd (snd x)) \<le> fst x \<and>
        0 \<le> fst (snd x) \<and> fst (snd x) < node_count g \<and> in_range w (snd (snd x)))"

definition source_ok :: "int \<Rightarrow> int \<Rightarrow> search_state \<Rightarrow> bool" where
  "source_ok w s st \<longleftrightarrow>
     (\<forall>ch. in_range w ch \<longrightarrow> dist st s ch = 0) \<and> (\<forall>ch. fst (prev st s ch) = -1)"

definition root_ok :: "search_state \<Rightarrow> bool" where
  "root_ok st \<longleftrightarrow> (\<forall>v ch. fst (prev st v ch) = -1 \<longrightarrow> dist st v ch < INF_val \<longrightarrow> dist st v ch = 0)"

definition parent_ok :: "ChannelGraph \<Rightarrow> int \<Rightarrow> int \<Rightarrow> int \<Rightarrow> search_state \<Rightarrow> bool" where
  "parent_ok g s w m st \<longleftrightarrow>
     (\<forall>v ch. fst (prev st v ch) \<noteq> -1 \<longrightarrow>
        dist st (fst (prev st v ch)) (snd (prev st v ch)) \<le> m \<and>
        in_range w (snd (prev st v ch)) \<and>
        (node_support_convert g ! nat (fst (prev st v ch)) \<or> fst (prev st v ch) = s \<or>
           ch = snd (prev st v ch)) \<and>
        (\<exists>e \<in> set (adj_list g ! nat (fst (prev st v ch))). to e = v \<and>
           dist st v ch = dist st (fst (prev st v ch)) (snd (prev st v ch)) +
                          segment_sum (channel_costs e) ch w))"

definition target_ok :: "int \<Rightarrow> search_state \<Rightarrow> bool" where
  "target_ok t st \<longleftrightarrow> (\<forall>ch. dist st t ch < INF_val \<longrightarrow> (dist st t ch, t, ch) \<in> set (pq st))"

definition reach_ok :: "ChannelGraph \<Rightarrow> int \<Rightarrow> int \<Rightarrow> search_state \<Rightarrow> bool" where
  "reach_ok g s w st \<longleftrightarrow> (\<forall>x \<in> set (pq st). reach g s w (fst (snd x)) (snd (snd x)))"

definition search_inv :: "ChannelGraph \<Rightarrow> int \<Rightarrow> int \<Rightarrow> int \<Rightarrow> int \<Rightarrow> search_state \<Rightarrow> bool" where
  "search_inv g s t w m st \<longleftrightarrow>
     pq_ok g w m st \<and> source_ok w s st \<and> root_ok st \<and> parent_ok g s w m st \<and>
     target_ok t st \<and> reach_ok g s w st"

text \<open>
  \<open>settled_ok g w B m S st\<close>: \<open>S\<close> is a set of states that have been expanded. Their
  distance is at most \<open>m\<close> and every queue entry they still have is stale; the queue has
  no entry twice; and a queue entry costs at most \<open>B\<close> for each member of \<open>S\<close>. As a
  state enters \<open>S\<close> only once and there are at most \<open>node_count * CHANNELS\<close> states,
  no cost that the search computes exceeds \<open>INF\<close>.
\<close>

definition settled_ok ::
  "ChannelGraph \<Rightarrow> int \<Rightarrow> int \<Rightarrow> int \<Rightarrow> (int \<times> int) set \<Rightarrow> search_state \<Rightarrow> bool" where
  "settled_ok g w B m S st \<longleftrightarrow>
     S \<subseteq> {0..<node_count g} \<times> {0..CHANNELS - w} \<and> distinct (pq st) \<and>
     (\<forall>v c. (v, c) \<in> S \<longrightarrow>
        dist st v c \<le> m \<and> (\<forall>x. (x, v, c) \<in> set (pq st) \<longrightarrow> dist st v c < x)) \<and>
     (\<forall>x \<in> set (pq st). fst x \<le> B * int (card S))"

lemma int32_id: "- 2147483648 \<le> x \<Longrightarrow> x \<le> 2147483647 \<Longrightarrow> int32 x = x"
  by (simp add: int32_def)

lemma fold_int32_sum:
  "(\<And>i. i \<in> set xs \<Longrightarrow> 0 \<le> f i) \<Longrightarrow> 0 \<le> a \<Longrightarrow> a + sum_list (map f xs) \<le> 2147483647 \<Longrightarrow>
   fold (\<lambda>i t. int32 (t + f i)) xs a = a + sum_list (map f xs)"
proof (induction xs arbitrary: a)
  case Nil
  then show ?case by simp
next
  case (Cons x xs)
  have s: "0 \<le> sum_list (map f xs)"
    by (intro sum_list_nonneg) (use Cons.prems(1) in auto)
  have x: "0 \<le> f x" using Cons.prems(1) by simp
  have "int32 (a + f x) = a + f x"
    using Cons.prems(2,3) s x by (intro int32_id) auto
  moreover have "fold (\<lambda>i t. int32 (t + f i)) xs (a + f x) = (a + f x) + sum_list (map f xs)"
    using Cons.prems x by (intro Cons.IH) (auto simp: add.assoc)
  ultimately show ?case by (simp add: add.assoc)
qed

lemma segment_index:
  assumes "int (length costs) = CHANNELS" "in_range w ch" "i \<in> set [0..w - 1]"
  shows "nat (ch + i) < length costs"
  using assms by (auto simp: in_range_def)

lemma segment_sum_nonneg:
  assumes "\<forall>x \<in> set costs. 0 \<le> x" "int (length costs) = CHANNELS" "in_range w ch"
  shows "0 \<le> segment_sum costs ch w"
  unfolding segment_sum_def
proof (intro sum_list_nonneg)
  fix x assume "x \<in> set (map (\<lambda>i. costs ! nat (ch + i)) [0..w - 1])"
  then obtain i where "i \<in> set [0..w - 1]" "x = costs ! nat (ch + i)" by auto
  with segment_index [OF assms(2,3)] assms(1) show "0 \<le> x" by simp
qed

lemma calculateChannelCost_sum:
  assumes "\<forall>x \<in> set costs. 0 \<le> x" "int (length costs) = CHANNELS" "in_range w ch" "0 \<le> w"
    and "segment_sum costs ch w \<le> INF_val"
  shows "calculateChannelCost costs ch w = segment_sum costs ch w"
proof -
  from assms(3,4) have "- 2147483648 \<le> ch + w" "ch + w \<le> 2147483647" "ch + w \<le> CHANNELS"
    by (auto simp: in_range_def CHANNELS_def)
  then have guard: "\<not> int32 (ch + w) > CHANNELS" by (simp add: int32_id)
  have "fold (\<lambda>i t. int32 (t + costs ! nat (ch + i))) [0..w - 1] 0 =
        0 + sum_list (map (\<lambda>i. costs ! nat (ch + i)) [0..w - 1])"
  proof (rule fold_int32_sum)
    fix i assume "i \<in> set [0..w - 1]"
    with segment_index [OF assms(2,3)] assms(1) show "0 \<le> costs ! nat (ch + i)" by simp
  next
    from assms(5) show "0 + sum_list (map (\<lambda>i. costs ! nat (ch + i)) [0..w - 1]) \<le> 2147483647"
      by (simp add: segment_sum_def INF_val_def)
  qed simp
  with guard show ?thesis by (simp add: calculateChannelCost_def segment_sum_def)
qed

lemma valid_graph_edge:
  assumes "valid_graph g" "0 \<le> u" "u < node_count g" "e \<in> set (adj_list g ! nat u)"
  shows "0 \<le> to e" "to e < node_count g" "int (length (channel_costs e)) = CHANNELS"
    "adj_list g ! nat u \<in> set (adj_list g)"
proof -
  from assms(1-3) show m: "adj_list g ! nat u \<in> set (adj_list g)"
    by (intro nth_mem) (simp add: valid_graph_def)
  with assms(1,4) show "0 \<le> to e" "to e < node_count g" "int (length (channel_costs e)) = CHANNELS"
    by (auto simp: valid_graph_def)
qed

lemma nonneg_costs_edge:
  assumes "valid_graph g" "nonneg_costs g" "0 \<le> u" "u < node_count g" "e \<in> set (adj_list g ! nat u)"
  shows "\<forall>x \<in> set (channel_costs e). 0 \<le> x"
  using valid_graph_edge(4) [OF assms(1,3,4,5)] assms(2,5) by (auto simp: nonneg_costs_def)

lemma bounded_costs_bound:
  assumes "bounded_costs g w" "1 \<le> w" "0 < node_count g" "valid_graph g" "nonneg_costs g"
  shows "cost_bound g w (INF_val div (node_count g * CHANNELS))"
proof -
  let ?M = "node_count g * CHANNELS" and ?B = "INF_val div (node_count g * CHANNELS)"
  from assms(3) have M: "0 < ?M" by (simp add: CHANNELS_def)
  then have B0: "0 \<le> ?B" by (simp add: INF_val_def pos_imp_zdiv_nonneg_iff)
  have BM: "?B * ?M \<le> INF_val"
  proof -
    have "?M * ?B + INF_val mod ?M = INF_val" by simp
    moreover from M have "0 \<le> INF_val mod ?M" by simp
    ultimately have "?M * ?B \<le> INF_val" by linarith
    then show ?thesis by (simp add: mult.commute)
  qed
  have "segment_sum (channel_costs e) ch w = INF_val \<or> segment_sum (channel_costs e) ch w \<le> ?B"
    if "es \<in> set (adj_list g)" "e \<in> set es" "ch \<in> {0..CHANNELS - w}" for es e ch
  proof -
    let ?k = "segment_sum (channel_costs e) ch w"
    from assms(1) that have "?k = INF_val \<or> ?k * ?M \<le> INF_val"
      unfolding bounded_costs_def by blast
    moreover have "?k \<le> ?B" if "?k * ?M \<le> INF_val"
    proof -
      from that have "(?k * ?M) div ?M \<le> INF_val div ?M" by (rule zdiv_mono1) (rule M)
      moreover from M have "?M \<noteq> 0" by linarith
      then have "(?k * ?M) div ?M = ?k" by (rule nonzero_mult_div_cancel_right)
      ultimately show ?thesis by simp
    qed
    ultimately show ?thesis by blast
  qed
  with assms(2,3) B0 BM show ?thesis unfolding cost_bound_def by blast
qed

text \<open>
  Under the bound the cost that \<open>calculateChannelCost\<close> returns is the sum of the segment,
  which is \<open>INF\<close> or at most \<open>B\<close>.
\<close>

lemma edge_cost:
  assumes g: "valid_graph g" "nonneg_costs g" and cb: "cost_bound g w B"
    and u: "0 \<le> u" "u < node_count g" and e: "e \<in> set (adj_list g ! nat u)"
    and vc: "in_range w vc"
  shows "calculateChannelCost (channel_costs e) vc w = segment_sum (channel_costs e) vc w"
    and "0 \<le> segment_sum (channel_costs e) vc w"
    and "segment_sum (channel_costs e) vc w = INF_val \<or> segment_sum (channel_costs e) vc w \<le> B"
    and "B \<le> INF_val"
proof -
  note ed = valid_graph_edge [OF g(1) u e]
  note nn = nonneg_costs_edge [OF g u e]
  from cb have w: "1 \<le> w" and B0: "0 \<le> B" and BM: "B * (node_count g * CHANNELS) \<le> INF_val"
    and n: "0 < node_count g"
    by (simp_all add: cost_bound_def)
  from n have "1 \<le> node_count g * CHANNELS" by (simp add: CHANNELS_def)
  with B0 have "B * 1 \<le> B * (node_count g * CHANNELS)" by (intro mult_left_mono) simp_all
  with BM show BI: "B \<le> INF_val" by simp
  from vc have "vc \<in> {0..CHANNELS - w}" by (simp add: in_range_def)
  with cb ed(4) e
  show k: "segment_sum (channel_costs e) vc w = INF_val \<or> segment_sum (channel_costs e) vc w \<le> B"
    unfolding cost_bound_def by blast
  with BI have "segment_sum (channel_costs e) vc w \<le> INF_val" by auto
  with w show "calculateChannelCost (channel_costs e) vc w = segment_sum (channel_costs e) vc w"
    by (intro calculateChannelCost_sum [OF nn ed(3) vc]) simp_all
  show "0 \<le> segment_sum (channel_costs e) vc w"
    by (rule segment_sum_nonneg [OF nn ed(3) vc])
qed

text \<open>One successful relaxation, as a state update.\<close>

definition update_state :: "int \<Rightarrow> int \<Rightarrow> int \<Rightarrow> int \<Rightarrow> int \<Rightarrow> search_state \<Rightarrow> search_state" where
  "update_state nc v vc u uc st =
     st\<lparr>dist := (dist st)(v := (dist st v)(vc := nc)),
        prev := (prev st)(v := (prev st v)(vc := (u, uc))),
        pq := insort (nc, v, vc) (pq st)\<rparr>"

lemma update_state_simps [simp]:
  "dist (update_state nc v vc u uc st) v' c' = (if v' = v \<and> c' = vc then nc else dist st v' c')"
  "prev (update_state nc v vc u uc st) v' c' = (if v' = v \<and> c' = vc then (u, uc) else prev st v' c')"
  "set (pq (update_state nc v vc u uc st)) = insert (nc, v, vc) (set (pq st))"
  "sorted (pq (update_state nc v vc u uc st)) = sorted (pq st)"
  "length (pq (update_state nc v vc u uc st)) = Suc (length (pq st))"
  "distinct (pq (update_state nc v vc u uc st)) \<longleftrightarrow> (nc, v, vc) \<notin> set (pq st) \<and> distinct (pq st)"
  by (auto simp: update_state_def set_insort_key sorted_insort distinct_insort)

lemma pq_ok_update:
  assumes "pq_ok g w m st" "m \<le> nc" "nc < dist st v vc" "0 \<le> v" "v < node_count g" "in_range w vc"
  shows "pq_ok g w m (update_state nc v vc u uc st)"
proof -
  from assms(1,3) have "nc < INF_val" by (auto simp: pq_ok_def intro: less_le_trans)
  with assms show ?thesis
    unfolding pq_ok_def by (auto simp: le_less intro: order_trans less_imp_le)
qed

text \<open>
  The invariant \<open>search_inv\<close> with the bound \<open>m\<close>, the cost of the last entry taken
  from the queue: queue entries cost at least \<open>m\<close> and bound the distance of their
  state; a state that is the predecessor of another has a distance of at most \<open>m\<close>, which
  therefore never changes again, and the distance of the successor is the predecessor's plus
  the cost of the segment on one edge between them; states without a predecessor are start
  states of the source with distance \<open>0\<close>; every finite distance of the target has its
  queue entry; every queued state is reachable.
\<close>

lemma source_ok_update:
  assumes "source_ok w s st" "0 \<le> nc" "nc < dist st v vc" "in_range w vc"
  shows "source_ok w s (update_state nc v vc u uc st)"
proof -
  from assms have "v \<noteq> s" by (auto simp: source_ok_def)
  with assms(1) show ?thesis by (auto simp: source_ok_def)
qed

lemma root_ok_update:
  assumes "root_ok st" "u \<noteq> -1"
  shows "root_ok (update_state nc v vc u uc st)"
  using assms by (auto simp: root_ok_def)

lemma parent_ok_update:
  assumes inv: "parent_ok g s w m st"
    and parent: "dist st u uc = m" "in_range w uc" "u \<noteq> -1"
    and cont: "node_support_convert g ! nat u \<or> u = s \<or> vc = uc"
    and edge: "e \<in> set (adj_list g ! nat u)" "to e = v"
    and cost: "nc = m + segment_sum (channel_costs e) vc w" "m \<le> nc" "nc < dist st v vc"
  shows "parent_ok g s w m (update_state nc v vc u uc st)"
  unfolding parent_ok_def
proof (intro allI impI)
  fix v' c'
  let ?st = "update_state nc v vc u uc st"
  assume has: "fst (prev ?st v' c') \<noteq> -1"
  have keep: "dist ?st a b = dist st a b" if "dist st a b \<le> m" for a b
    using that cost by auto
  show "dist ?st (fst (prev ?st v' c')) (snd (prev ?st v' c')) \<le> m \<and>
        in_range w (snd (prev ?st v' c')) \<and>
        (node_support_convert g ! nat (fst (prev ?st v' c')) \<or> fst (prev ?st v' c') = s \<or>
           c' = snd (prev ?st v' c')) \<and>
        (\<exists>e \<in> set (adj_list g ! nat (fst (prev ?st v' c'))). to e = v' \<and>
           dist ?st v' c' = dist ?st (fst (prev ?st v' c')) (snd (prev ?st v' c')) +
                            segment_sum (channel_costs e) c' w)"
  proof (cases "v' = v \<and> c' = vc")
    case True
    have e1: "prev ?st v' c' = (u, uc)" and e2: "dist ?st v' c' = nc"
      using True by simp_all
    have e3: "dist ?st u uc = m" using keep [of u uc] parent(1) by simp
    show ?thesis
      unfolding e1 e2 fst_conv snd_conv e3
      using True parent cont edge cost(1) by blast
  next
    case False
    have e1: "prev ?st v' c' = prev st v' c'" and e2: "dist ?st v' c' = dist st v' c'"
      using False by auto
    from has have old: "fst (prev st v' c') \<noteq> -1" unfolding e1 .
    from inv old have p: "dist st (fst (prev st v' c')) (snd (prev st v' c')) \<le> m"
      by (simp add: parent_ok_def)
    note e3 = keep [OF p]
    from inv old show ?thesis
      unfolding e1 e2 e3 parent_ok_def by blast
  qed
qed

lemma target_ok_update:
  assumes "target_ok t st"
  shows "target_ok t (update_state nc v vc u uc st)"
  using assms by (auto simp: target_ok_def)

lemma reach_ok_update:
  assumes "reach_ok g s w st" "reach g s w v vc"
  shows "reach_ok g s w (update_state nc v vc u uc st)"
  using assms by (auto simp: reach_ok_def)

lemma settled_ok_update:
  assumes so: "settled_ok g w B m S st" and pq: "pq_ok g w m st"
    and nc: "m \<le> nc" "nc < dist st v vc" "nc \<le> B * int (card S)"
  shows "settled_ok g w B m S (update_state nc v vc u uc st)"
proof -
  let ?st = "update_state nc v vc u uc st"
  have new: "(nc, v, vc) \<notin> set (pq st)"
  proof
    assume "(nc, v, vc) \<in> set (pq st)"
    with pq have "dist st v vc \<le> nc" by (auto simp: pq_ok_def)
    with nc(2) show False by simp
  qed
  have out: "(v, vc) \<notin> S"
  proof
    assume "(v, vc) \<in> S"
    with so have "dist st v vc \<le> m" by (auto simp: settled_ok_def)
    with nc(1,2) show False by simp
  qed
  have "dist ?st a b \<le> m \<and> (\<forall>x. (x, a, b) \<in> set (pq ?st) \<longrightarrow> dist ?st a b < x)"
    if "(a, b) \<in> S" for a b
  proof -
    from that out have ne: "\<not> (a = v \<and> b = vc)" by auto
    from so that have "dist st a b \<le> m" "\<forall>x. (x, a, b) \<in> set (pq st) \<longrightarrow> dist st a b < x"
      by (auto simp: settled_ok_def)
    with ne show ?thesis by auto
  qed
  moreover from so nc(3) have "\<forall>x \<in> set (pq ?st). fst x \<le> B * int (card S)"
    by (auto simp: settled_ok_def)
  moreover from so new have "distinct (pq ?st)" by (simp add: settled_ok_def)
  moreover from so have "S \<subseteq> {0..<node_count g} \<times> {0..CHANNELS - w}" by (simp add: settled_ok_def)
  ultimately show ?thesis unfolding settled_ok_def by blast
qed

lemma states_card:
  assumes sub: "S \<subseteq> {0..<node_count g} \<times> {0..CHANNELS - w}" and cb: "cost_bound g w B"
  shows "finite S" "B * int (card S) \<le> INF_val"
proof -
  let ?D = "{0..<node_count g} \<times> {0..CHANNELS - w}"
  have fin: "finite ?D" by simp
  from sub fin show "finite S" by (rule finite_subset)
  from cb have w: "1 \<le> w" and n: "0 < node_count g" and B0: "0 \<le> B"
    and BM: "B * (node_count g * CHANNELS) \<le> INF_val"
    by (simp_all add: cost_bound_def)
  have "card S \<le> card ?D" using sub fin by (rule card_mono [rotated])
  also have "card ?D = nat (node_count g) * nat (CHANNELS - w + 1)"
    by (simp add: card_cartesian_product)
  finally have "card S \<le> nat (node_count g) * nat (CHANNELS - w + 1)" .
  then have "int (card S) \<le> int (nat (node_count g) * nat (CHANNELS - w + 1))"
    by (rule iffD2 [OF of_nat_le_iff])
  also have "\<dots> \<le> node_count g * CHANNELS"
  proof (cases "w \<le> CHANNELS")
    case True
    with n w have "int (nat (node_count g) * nat (CHANNELS - w + 1)) = node_count g * (CHANNELS - w + 1)"
      by simp
    also from n w have "\<dots> \<le> node_count g * CHANNELS" by (intro mult_left_mono) simp_all
    finally show ?thesis .
  next
    case False
    with n show ?thesis by (simp add: CHANNELS_def)
  qed
  finally have "int (card S) \<le> node_count g * CHANNELS" .
  with B0 have "B * int (card S) \<le> B * (node_count g * CHANNELS)" by (rule mult_left_mono [rotated])
  with BM show "B * int (card S) \<le> INF_val" by simp
qed

lemma settled_card:
  assumes "settled_ok g w B m S st" "cost_bound g w B"
  shows "finite S" "B * int (card S) \<le> INF_val"
proof -
  from assms(1) have "S \<subseteq> {0..<node_count g} \<times> {0..CHANNELS - w}" by (simp add: settled_ok_def)
  from states_card [OF this assms(2)] show "finite S" "B * int (card S) \<le> INF_val" .
qed

definition expand_inv ::
  "ChannelGraph \<Rightarrow> int \<Rightarrow> int \<Rightarrow> int \<Rightarrow> int \<Rightarrow> int \<Rightarrow> (int \<times> int) set \<Rightarrow> int \<Rightarrow> int \<Rightarrow>
     search_state \<Rightarrow> bool" where
  "expand_inv g s t w B m S u uc st \<longleftrightarrow>
     search_inv g s t w m st \<and> settled_ok g w B m S st \<and> dist st u uc = m \<and>
     0 \<le> u \<and> u < node_count g \<and> in_range w uc \<and> reach g s w u uc \<and>
     m + B \<le> B * int (card S)"

lemma relax_eq_update:
  "relax w m u uc e vc st = st \<or>
   (calculateChannelCost (channel_costs e) vc w \<noteq> INF_val \<and>
    int32 (m + calculateChannelCost (channel_costs e) vc w) < dist st (to e) vc \<and>
    relax w m u uc e vc st =
      update_state (int32 (m + calculateChannelCost (channel_costs e) vc w)) (to e) vc u uc st)"
  by (cases rule: relax_cases [of w m u uc e vc st]) (auto simp: update_state_def)

lemma possible_continuity:
  "vc \<in> set (possible_start_channels g s w u uc) \<Longrightarrow>
   node_support_convert g ! nat u \<or> u = s \<or> vc = uc"
  by (auto simp: possible_start_channels_def split: if_splits)

text \<open>
  In an expansion no sum wraps around: a relaxation that is not skipped is the update with
  the cost \<open>m + k\<close>, where \<open>k\<close> is the sum of the segment.
\<close>

lemma relax_bounded:
  assumes g: "valid_graph g" "nonneg_costs g" and cb: "cost_bound g w B"
    and inv: "expand_inv g s t w B m S u uc st"
    and e: "e \<in> set (adj_list g ! nat u)"
    and vc: "vc \<in> set (possible_start_channels g s w u uc)"
  shows "relax w m u uc e vc st = st \<or>
         (0 \<le> segment_sum (channel_costs e) vc w \<and> segment_sum (channel_costs e) vc w \<le> B \<and>
          m + segment_sum (channel_costs e) vc w < dist st (to e) vc \<and>
          relax w m u uc e vc st =
            update_state (m + segment_sum (channel_costs e) vc w) (to e) vc u uc st)"
proof -
  let ?k = "segment_sum (channel_costs e) vc w"
  from inv have si: "search_inv g s t w m st" and so: "settled_ok g w B m S st"
    and u: "0 \<le> u" "u < node_count g" and uc: "in_range w uc"
    and mB: "m + B \<le> B * int (card S)"
    by (auto simp: expand_inv_def)
  from si have m0: "0 \<le> m" by (simp add: search_inv_def pq_ok_def)
  have vr: "in_range w vc" by (rule possible_in_range [OF uc vc])
  note ec = edge_cost [OF g cb u e vr]
  from settled_card(2) [OF so cb] mB have mI: "m + B \<le> INF_val" by simp
  show ?thesis
  proof (cases "?k = INF_val")
    case True
    with ec(1) have "relax w m u uc e vc st = st" by (simp add: relax_def)
    then show ?thesis by simp
  next
    case False
    with ec(3) have kB: "?k \<le> B" by simp
    with mI m0 ec(2) have "int32 (m + ?k) = m + ?k"
      by (intro int32_id) (auto simp: INF_val_def)
    with relax_eq_update [of w m u uc e vc st] ec(1,2) kB show ?thesis by auto
  qed
qed

lemma expand_inv_relax:
  assumes g: "valid_graph g" "nonneg_costs g" and cb: "cost_bound g w B"
    and inv: "expand_inv g s t w B m S u uc st"
    and e: "e \<in> set (adj_list g ! nat u)"
    and vc: "vc \<in> set (possible_start_channels g s w u uc)"
  shows "expand_inv g s t w B m S u uc (relax w m u uc e vc st)"
proof -
  let ?k = "segment_sum (channel_costs e) vc w"
  let ?st = "update_state (m + ?k) (to e) vc u uc st"
  from inv have si: "search_inv g s t w m st" and so: "settled_ok g w B m S st"
    and du: "dist st u uc = m"
    and u: "0 \<le> u" "u < node_count g" and uc: "in_range w uc" and ru: "reach g s w u uc"
    and mB: "m + B \<le> B * int (card S)"
    by (auto simp: expand_inv_def)
  from si have m0: "0 \<le> m" by (simp add: search_inv_def pq_ok_def)
  have vr: "in_range w vc" by (rule possible_in_range [OF uc vc])
  note ed = valid_graph_edge [OF g(1) u e]
  have "expand_inv g s t w B m S u uc ?st"
    if k0: "0 \<le> ?k" and kB: "?k \<le> B" and less: "m + ?k < dist st (to e) vc"
  proof -
    have "pq_ok g w m ?st"
      using si k0 less ed vr by (intro pq_ok_update) (auto simp: search_inv_def)
    moreover have "source_ok w s ?st"
      using si k0 m0 less vr by (intro source_ok_update) (auto simp: search_inv_def)
    moreover have "root_ok ?st"
      using si u by (intro root_ok_update) (auto simp: search_inv_def)
    moreover have "parent_ok g s w m ?st"
      using si du uc u possible_continuity [OF vc] e k0 less
      by (intro parent_ok_update [where e = e]) (auto simp: search_inv_def)
    moreover have "target_ok t ?st"
      using si by (intro target_ok_update) (auto simp: search_inv_def)
    moreover have "reach_ok g s w ?st"
      using si reach_edge [OF ru e vc] by (intro reach_ok_update) (auto simp: search_inv_def)
    moreover have "settled_ok g w B m S ?st"
      using si so k0 kB less mB by (intro settled_ok_update) (auto simp: search_inv_def)
    moreover have "dist ?st u uc = m"
      using du k0 less by auto
    ultimately show ?thesis using u uc ru mB by (simp add: expand_inv_def search_inv_def)
  qed
  with inv relax_bounded [OF g cb inv e vc] show ?thesis by auto
qed

lemma sorted_hd_fst_le:
  assumes "sorted (pq st)" "x \<in> set (pq (pop st))"
  shows "top_cost st \<le> fst x"
proof -
  from assms obtain y ys where ys: "pq st = y # ys" "x \<in> set ys"
    by (cases "pq st") (auto simp: pop_def)
  with assms(1) have "y \<le> x" by auto
  then have "fst y \<le> fst x" by (auto simp: less_eq_prod_def)
  with ys show ?thesis by (simp add: top_cost_def)
qed

lemma search_inv_pop:
  assumes inv: "search_inv g s t w m st" and ne: "pq st \<noteq> []" and nt: "top_node st \<noteq> t"
  shows "search_inv g s t w (top_cost st) (pop st)"
proof -
  from inv have pq: "pq_ok g w m st" by (simp add: search_inv_def)
  from top_in_pq [OF ne] pq have top: "m \<le> top_cost st" "top_cost st < INF_val"
    by (auto simp: pq_ok_def)
  have "pq_ok g w (top_cost st) (pop st)"
    using pq top set_pq_pop [of st] sorted_hd_fst_le [of st]
    by (auto simp: pq_ok_def pop_def sorted_tl)
  moreover have "source_ok w s (pop st)" using inv by (simp add: search_inv_def source_ok_def)
  moreover have "root_ok (pop st)" using inv by (simp add: search_inv_def root_ok_def)
  moreover have "parent_ok g s w (top_cost st) (pop st)"
    using inv top(1) by (fastforce simp: search_inv_def parent_ok_def)
  moreover have "target_ok t (pop st)"
  proof -
    from ne obtain y ys where ys: "pq st = y # ys" by (cases "pq st") auto
    with nt have "fst (snd y) \<noteq> t" by (simp add: top_node_def)
    with inv ys show ?thesis by (auto simp: search_inv_def target_ok_def pop_def)
  qed
  moreover have "reach_ok g s w (pop st)"
    using inv set_pq_pop [of st] by (auto simp: search_inv_def reach_ok_def)
  ultimately show ?thesis by (simp add: search_inv_def)
qed

lemma settled_ok_pop:
  assumes so: "settled_ok g w B m S st" and pq: "pq_ok g w m st" and ne: "pq st \<noteq> []"
  shows "settled_ok g w B (top_cost st) S (pop st)"
proof -
  from top_in_pq [OF ne] pq have top: "m \<le> top_cost st" by (auto simp: pq_ok_def)
  from so have d: "distinct (pq (pop st))" by (simp add: settled_ok_def pop_def distinct_tl)
  have "dist (pop st) v c \<le> top_cost st \<and>
        (\<forall>x. (x, v, c) \<in> set (pq (pop st)) \<longrightarrow> dist (pop st) v c < x)"
    if "(v, c) \<in> S" for v c
  proof -
    from so that have "dist st v c \<le> m" "\<forall>x. (x, v, c) \<in> set (pq st) \<longrightarrow> dist st v c < x"
      by (auto simp: settled_ok_def)
    with top set_pq_pop [of st] show ?thesis by auto
  qed
  moreover from so set_pq_pop [of st] have "\<forall>x \<in> set (pq (pop st)). fst x \<le> B * int (card S)"
    by (auto simp: settled_ok_def)
  moreover from so have "S \<subseteq> {0..<node_count g} \<times> {0..CHANNELS - w}" by (simp add: settled_ok_def)
  ultimately show ?thesis unfolding settled_ok_def using d by blast
qed

text \<open>
  The state at the head of the queue, when it is expanded, is not in \<open>S\<close> and enters it.
\<close>

lemma settled_ok_expand:
  assumes so: "settled_ok g w B m S st" and pq: "pq_ok g w m st" and ne: "pq st \<noteq> []"
    and fresh: "\<not> top_cost st > dist st (top_node st) (top_ch st)"
    and cb: "cost_bound g w B"
  shows "settled_ok g w B (top_cost st) (insert (top_node st, top_ch st) S) (pop st)"
    and "top_cost st + B \<le> B * int (card (insert (top_node st, top_ch st) S))"
proof -
  let ?c = "top_cost st" and ?u = "top_node st" and ?uc = "top_ch st"
  from ne obtain ys where ys: "pq st = (?c, ?u, ?uc) # ys"
    by (cases "pq st") (auto simp: top_cost_def top_node_def top_ch_def)
  from top_in_pq [OF ne] pq have top: "m \<le> ?c" "dist st ?u ?uc \<le> ?c" "0 \<le> ?u" "?u < node_count g"
    "in_range w ?uc"
    by (auto simp: pq_ok_def)
  with fresh have eq: "dist st ?u ?uc = ?c" by simp
  from cb have B0: "0 \<le> B" by (simp add: cost_bound_def)
  note fin = settled_card(1) [OF so cb]
  have out: "(?u, ?uc) \<notin> S"
  proof
    assume "(?u, ?uc) \<in> S"
    with so top_in_pq [OF ne] have "dist st ?u ?uc < ?c" by (auto simp: settled_ok_def)
    with eq show False by simp
  qed
  with fin have card: "card (insert (?u, ?uc) S) = Suc (card S)" by simp
  from so ys have d: "distinct ys" "(?c, ?u, ?uc) \<notin> set ys" by (auto simp: settled_ok_def)
  have pop: "pq (pop st) = ys" "dist (pop st) = dist st" using ys by (simp_all add: pop_def)
  from so top_in_pq [OF ne] have "?c \<le> B * int (card S)" by (auto simp: settled_ok_def)
  then show "?c + B \<le> B * int (card (insert (?u, ?uc) S))"
    unfolding card by (simp add: algebra_simps)
  have le: "B * int (card S) \<le> B * int (card (insert (?u, ?uc) S))"
    unfolding card using B0 by (simp add: algebra_simps)
  have "dist st a b \<le> ?c \<and> (\<forall>x. (x, a, b) \<in> set ys \<longrightarrow> dist st a b < x)"
    if "(a, b) \<in> insert (?u, ?uc) S" for a b
  proof (cases "(a, b) \<in> S")
    case True
    with so have "dist st a b \<le> m" "\<forall>x. (x, a, b) \<in> set (pq st) \<longrightarrow> dist st a b < x"
      by (auto simp: settled_ok_def)
    with top(1) ys show ?thesis by auto
  next
    case False
    with that have ab: "a = ?u" "b = ?uc" by auto
    have "dist st ?u ?uc < x" if x: "(x, ?u, ?uc) \<in> set ys" for x
    proof -
      from x ys pq have "dist st ?u ?uc \<le> x" by (auto simp: pq_ok_def)
      moreover from x d(2) have "x \<noteq> ?c" by auto
      ultimately show ?thesis using eq by simp
    qed
    with ab eq show ?thesis by simp
  qed
  moreover have "\<forall>x \<in> set ys. fst x \<le> B * int (card (insert (?u, ?uc) S))"
  proof
    fix x assume "x \<in> set ys"
    with so ys have "fst x \<le> B * int (card S)" by (auto simp: settled_ok_def)
    with le show "fst x \<le> B * int (card (insert (?u, ?uc) S))" by simp
  qed
  moreover from so top have "insert (?u, ?uc) S \<subseteq> {0..<node_count g} \<times> {0..CHANNELS - w}"
    by (auto simp: settled_ok_def in_range_def)
  ultimately show "settled_ok g w B ?c (insert (?u, ?uc) S) (pop st)"
    unfolding settled_ok_def pop using d(1) by blast
qed

lemma search_inv_init:
  assumes "1 \<le> w" "w \<le> 3" "0 \<le> s" "s < node_count g"
  shows "search_inv g s t w 0 (init_state s w)"
proof -
  have "pq_ok g w 0 (init_state s w)"
    using assms
    by (auto simp: pq_ok_def init_state_pq_sorted init_state_pq_set init_state_dist
        in_range_def INF_val_def)
  moreover have "source_ok w s (init_state s w)"
    by (simp add: source_ok_def init_state_dist init_state_prev in_range_def)
  moreover have "root_ok (init_state s w)"
    by (simp add: root_ok_def init_state_dist)
  moreover have "parent_ok g s w 0 (init_state s w)"
    by (simp add: parent_ok_def init_state_prev)
  moreover have "target_ok t (init_state s w)"
    by (auto simp: target_ok_def init_state_dist init_state_pq_set)
  moreover have "reach_ok g s w (init_state s w)"
    by (auto simp: reach_ok_def init_state_pq_set intro: reach_source)
  ultimately show ?thesis by (simp add: search_inv_def)
qed

lemma insort_after_smaller:
  "\<forall>y \<in> set ys. y < x \<Longrightarrow> insort x (ys @ zs) = ys @ insort x zs"
  by (induction ys) auto

lemma fold_init_source_pq:
  "sorted cs \<Longrightarrow> distinct cs \<Longrightarrow> \<forall>y \<in> set (pq st). \<forall>c \<in> set cs. y < (0, s, c) \<Longrightarrow>
   pq (fold (init_source s) cs st) = pq st @ map (\<lambda>c. (0, s, c)) cs"
proof (induction cs arbitrary: st)
  case Nil
  then show ?case by simp
next
  case (Cons c cs)
  have 1: "pq (init_source s c st) = pq st @ [(0, s, c)]"
    using Cons.prems(3) insort_after_smaller [of "pq st" "(0, s, c)" "[]"]
    by (simp add: init_source_def)
  have "pq (fold (init_source s) cs (init_source s c st)) =
          pq (init_source s c st) @ map (\<lambda>c. (0, s, c)) cs"
    using Cons.prems by (intro Cons.IH) (auto simp: 1 less_prod_def le_less)
  then show ?case by (simp add: 1)
qed

lemma init_state_pq: "pq (init_state s w) = map (\<lambda>c. (0, s, c)) [0..CHANNELS - w]"
  by (simp add: init_state_def fold_init_source_pq)

lemma settled_ok_init: "settled_ok g w B 0 {} (init_state s w)"
  by (simp add: settled_ok_def init_state_pq distinct_map inj_on_def)

lemma search_inv_expand:
  assumes g: "valid_graph g" "nonneg_costs g" and cb: "cost_bound g w B"
    and inv: "search_inv g s t w m st" and so: "settled_ok g w B m S st"
    and ne: "pq st \<noteq> []" and nt: "top_node st \<noteq> t"
    and fresh: "\<not> top_cost st > dist st (top_node st) (top_ch st)"
  shows "expand_inv g s t w B (top_cost st) (insert (top_node st, top_ch st) S)
           (top_node st) (top_ch st)
           (expand g s w (top_cost st) (top_node st) (top_ch st) (pop st))"
proof (rule expand_invariant
    [where P = "expand_inv g s t w B (top_cost st) (insert (top_node st, top_ch st) S)
                  (top_node st) (top_ch st)"])
  from inv have pq: "pq_ok g w m st" by (simp add: search_inv_def)
  from inv top_in_pq [OF ne]
  have top: "dist st (top_node st) (top_ch st) \<le> top_cost st" "0 \<le> top_node st"
    "top_node st < node_count g" "in_range w (top_ch st)"
    "reach g s w (top_node st) (top_ch st)"
    by (auto simp: search_inv_def pq_ok_def reach_ok_def)
  with fresh search_inv_pop [OF inv ne nt] settled_ok_expand [OF so pq ne fresh cb]
  show "expand_inv g s t w B (top_cost st) (insert (top_node st, top_ch st) S)
          (top_node st) (top_ch st) (pop st)"
    by (simp add: expand_inv_def)
next
  fix e vc st'
  assume "e \<in> set (adj_list g ! nat (top_node st))"
    "vc \<in> set (possible_start_channels g s w (top_node st) (top_ch st))"
    "expand_inv g s t w B (top_cost st) (insert (top_node st, top_ch st) S)
       (top_node st) (top_ch st) st'"
  then show "expand_inv g s t w B (top_cost st) (insert (top_node st, top_ch st) S)
               (top_node st) (top_ch st)
               (relax w (top_cost st) (top_node st) (top_ch st) e vc st')"
    by (intro expand_inv_relax g cb)
qed

section \<open>Cost of a path, predecessor chains and termination\<close>





lemma is_chain_link:
  "is_chain prv n c ch \<Longrightarrow> Suc j < length ch \<Longrightarrow>
   prv (fst (ch ! j)) (snd (ch ! j)) = ch ! Suc j \<and> fst (ch ! Suc j) \<noteq> -1"
proof (induction ch arbitrary: n c j)
  case Nil
  then show ?case by simp
next
  case (Cons x xs)
  then obtain y ys where ys: "xs = y # ys" by (cases xs) auto
  show ?case
  proof (cases j)
    case 0
    with Cons.prems ys show ?thesis by auto
  next
    case (Suc j')
    with Cons.prems Cons.IH [of "fst (prv n c)" "snd (prv n c)" j'] show ?thesis by auto
  qed
qed








lemma search_loop_found:
  assumes g: "valid_graph g" "nonneg_costs g" and cb: "cost_bound g w B"
    and args: "1 \<le> w" "w \<le> 3" "0 \<le> s" "s < node_count g"
    and run: "search_loop g s t w (init_state s w) = Some r"
  shows "r = ([], INF_val) \<or>
         (\<exists>st m. search_inv g s t w m st \<and> pq st \<noteq> [] \<and> top_node st = t \<and>
            reconstructPath (prev st) s t (top_ch st) (top_cost st) = Some r)"
proof (rule search_loop_rule
    [where I = "\<lambda>st. \<exists>m S. search_inv g s t w m st \<and> settled_ok g w B m S st"
      and g = g and s = s and t = t and w = w and st = "init_state s w" and r = r])
  show "search_loop g s t w (init_state s w) = Some r" by fact
  show "\<exists>m S. search_inv g s t w m (init_state s w) \<and> settled_ok g w B m S (init_state s w)"
    using search_inv_init [OF args] settled_ok_init by blast
next
  fix st
  assume "\<exists>m S. search_inv g s t w m st \<and> settled_ok g w B m S st" "pq st \<noteq> []" "top_node st \<noteq> t"
  then show "\<exists>m S. search_inv g s t w m (pop st) \<and> settled_ok g w B m S (pop st)"
    using search_inv_pop settled_ok_pop by (metis search_inv_def)
next
  fix st
  assume "\<exists>m S. search_inv g s t w m st \<and> settled_ok g w B m S st" "pq st \<noteq> []" "top_node st \<noteq> t"
    "\<not> top_cost st > dist st (top_node st) (top_ch st)"
  then obtain m S where
    "expand_inv g s t w B (top_cost st) (insert (top_node st, top_ch st) S)
       (top_node st) (top_ch st)
       (expand g s w (top_cost st) (top_node st) (top_ch st) (pop st))"
    using search_inv_expand [OF g cb] by blast
  then show "\<exists>m S. search_inv g s t w m
                 (expand g s w (top_cost st) (top_node st) (top_ch st) (pop st)) \<and>
               settled_ok g w B m S
                 (expand g s w (top_cost st) (top_node st) (top_ch st) (pop st))"
    by (auto simp: expand_inv_def)
qed blast+


text \<open>
  The graph of the unreachability test of ChannelGraph.cpp: three nodes, one edge between
  \<open>0\<close> and \<open>1\<close> with constant costs.
\<close>

definition unreachable_test_graph :: ChannelGraph where
  "unreachable_test_graph =
     \<lparr>node_count = 3,
      adj_list = [[\<lparr>to = 1, channel_costs = replicate 100 1\<rparr>],
                  [\<lparr>to = 0, channel_costs = replicate 100 1\<rparr>],
                  []],
      node_support_convert = [False, False, False]\<rparr>"

lemma unreachable_test_graph_built:
  "addEdge (new_ChannelGraph 3) 0 1 (replicate 100 1) = Inr unreachable_test_graph"
  by (simp add: addEdge_def new_ChannelGraph_def unreachable_test_graph_def emplace_edge_def
      CHANNELS_def numeral_3_eq_3)




section \<open>Spectrum continuity of the returned path\<close>

lemma findShortestPath_continuity:
  assumes "valid_graph g" "nonneg_costs g" "bounded_costs g width"
    and "findShortestPath g source target width = Some (Inr (path, cost))"
    and i: "0 < i" "Suc i < length path"
    and nc: "\<not> node_support_convert g ! nat (fst (path ! i))"
  shows "snd (path ! Suc i) = snd (path ! i)"
proof -
  from assms(4) have args: "1 \<le> width" "width \<le> 3" "0 \<le> source" "source < node_count g"
    and run: "search_loop g source target width (init_state source width) = Some (path, cost)"
    by (auto simp: findShortestPath_def split: if_splits)
  from args have "0 < node_count g" by simp
  note cb = bounded_costs_bound [OF assms(3) args(1) this assms(1,2)]
  from i have "path \<noteq> []" by auto
  with search_loop_found [OF assms(1,2) cb args run]
  obtain st m where inv: "search_inv g source target width m st"
    and rc: "reconstructPath (prev st) source target (top_ch st) (top_cost st) = Some (path, cost)"
    by auto
  from reconstructPath_chain [OF rc]
  have ch: "is_chain (prev st) target (top_ch st) (rev path)" by simp
  let ?ch = "rev path" and ?L = "length path"
  define j where "j = ?L - Suc (Suc i)"
  from i have j: "Suc (Suc j) < ?L" "?L - Suc j = Suc i" "?L - Suc (Suc j) = i"
    "?L - Suc (Suc (Suc j)) = i - 1"
    by (auto simp: j_def)
  from j have n: "?ch ! j = path ! Suc i" "?ch ! Suc j = path ! i" "?ch ! Suc (Suc j) = path ! (i - 1)"
    by (simp_all add: rev_nth)
  from is_chain_link [OF ch, of j] j n
  have l1: "prev st (fst (path ! Suc i)) (snd (path ! Suc i)) = path ! i" "fst (path ! i) \<noteq> -1"
    by simp_all
  from is_chain_link [OF ch, of "Suc j"] j n
  have l2: "fst (prev st (fst (path ! i)) (snd (path ! i))) \<noteq> -1" by simp
  from inv have src: "source_ok width source st" and par: "parent_ok g source width m st"
    by (simp_all add: search_inv_def)
  from src l2 have "fst (path ! i) \<noteq> source" by (auto simp: source_ok_def)
  with par l1 nc show ?thesis
    unfolding parent_ok_def by (metis fst_conv snd_conv)
qed


section \<open>Running the search on a concrete graph\<close>

text \<open>
  Lemmas that evaluate the loop without visiting each of the \<open>CHANNELS\<close> start channels
  one by one: channels whose segment cost is \<open>INF\<close> are skipped by \<open>relax\<close>, an
  expansion that improves no distance leaves the state unchanged, and the queue entries of
  the source that remain after its first expansion are taken out without effect.
\<close>

lemma relax_skip:
  "calculateChannelCost (channel_costs e) vc w = INF_val \<Longrightarrow> relax w m u uc e vc st = st"
  by (simp add: relax_def)

lemma relax_keep:
  "\<not> int32 (m + calculateChannelCost (channel_costs e) vc w) < dist st (to e) vc \<Longrightarrow>
   relax w m u uc e vc st = st"
  by (simp add: relax_def Let_def)

lemma relax_improve:
  "calculateChannelCost (channel_costs e) vc w \<noteq> INF_val \<Longrightarrow>
   int32 (m + calculateChannelCost (channel_costs e) vc w) < dist st (to e) vc \<Longrightarrow>
   relax w m u uc e vc st =
     update_state (int32 (m + calculateChannelCost (channel_costs e) vc w)) (to e) vc u uc st"
  by (simp add: relax_def Let_def update_state_def)

lemma fold_relax_filter:
  "fold (relax w m u uc e) cs st =
   fold (relax w m u uc e)
     (filter (\<lambda>c. calculateChannelCost (channel_costs e) c w \<noteq> INF_val) cs) st"
  by (induction cs arbitrary: st) (auto simp: relax_skip)

text \<open>An expansion that improves nothing leaves the state as it is.\<close>

definition settled :: "ChannelGraph \<Rightarrow> int \<Rightarrow> int \<Rightarrow> int \<Rightarrow> int \<Rightarrow> int \<Rightarrow> search_state \<Rightarrow> bool" where
  "settled g s w m u uc st \<longleftrightarrow>
     (\<forall>e \<in> set (adj_list g ! nat u). \<forall>vc \<in> set (possible_start_channels g s w u uc).
        calculateChannelCost (channel_costs e) vc w = INF_val \<or>
        \<not> int32 (m + calculateChannelCost (channel_costs e) vc w) < dist st (to e) vc)"

lemma expand_settled:
  assumes "settled g s w m u uc st"
  shows "expand g s w m u uc st = st"
proof -
  have "expand g s w m u uc st = st \<and> True"
  proof (rule expand_invariant [where P = "\<lambda>st'. st' = st \<and> True"])
    show "st = st \<and> True" by simp
  next
    fix e vc st'
    assume "e \<in> set (adj_list g ! nat u)" "vc \<in> set (possible_start_channels g s w u uc)"
      "st' = st \<and> True"
    with assms have "calculateChannelCost (channel_costs e) vc w = INF_val \<or>
        \<not> int32 (m + calculateChannelCost (channel_costs e) vc w) < dist st (to e) vc"
      and "st' = st" by (auto simp: settled_def)
    then show "relax w m u uc e vc st' = st \<and> True"
      using relax_skip [of e vc w m u uc st] relax_keep [of m e vc w st u uc] by auto
  qed
  then show ?thesis by simp
qed

lemma settled_pq [simp]: "settled g s w m u uc (st\<lparr>pq := q\<rparr>) = settled g s w m u uc st"
  by (simp add: settled_def)

lemma source_drain:
  assumes "s \<noteq> t"
  shows "pq st = map (\<lambda>c. (0, s, c)) cs @ qs \<Longrightarrow> \<forall>c \<in> set cs. dist st s c = 0 \<Longrightarrow>
         \<forall>c \<in> set cs. settled g s w 0 s c st \<Longrightarrow>
         search_loop g s t w st = search_loop g s t w (st\<lparr>pq := qs\<rparr>)"
proof (induction cs arbitrary: st)
  case Nil
  then have "st\<lparr>pq := qs\<rparr> = st" by simp
  then show ?case by simp
next
  case (Cons c cs)
  from Cons.prems(1) have top: "pq st \<noteq> []" "top_node st = s" "top_cost st = 0" "top_ch st = c"
    and pop: "pq (pop st) = map (\<lambda>c. (0, s, c)) cs @ qs"
    by (simp_all add: top_node_def top_cost_def top_ch_def pop_def)
  from Cons.prems(3) have "settled g s w 0 s c (pop st)" by (simp add: pop_def)
  then have ex: "expand g s w 0 s c (pop st) = pop st" by (rule expand_settled)
  have "search_loop g s t w st = search_loop g s t w (pop st)"
    using top assms Cons.prems(2) ex by (subst search_loop.simps) simp
  also have "\<dots> = search_loop g s t w ((pop st)\<lparr>pq := qs\<rparr>)"
    using Cons.prems(2,3) by (intro Cons.IH [OF pop]) (simp_all add: pop_def)
  also have "(pop st)\<lparr>pq := qs\<rparr> = st\<lparr>pq := qs\<rparr>" by (simp add: pop_def)
  finally show ?case .
qed

lemma search_loop_expand_step:
  "pq st = (c, u, uc) # q \<Longrightarrow> u \<noteq> t \<Longrightarrow> \<not> c > dist st u uc \<Longrightarrow>
   search_loop g s t w st = search_loop g s t w (expand g s w c u uc (st\<lparr>pq := q\<rparr>))"
  by (subst search_loop.simps) (simp add: top_node_def top_cost_def top_ch_def pop_def)

lemma search_loop_found_step:
  "pq st = (c, t, uc) # q \<Longrightarrow>
   search_loop g s t w st = reconstructPath (prev st) s t uc c"
  by (subst search_loop.simps) (simp add: top_node_def top_cost_def top_ch_def pop_def)

lemma expand_filter:
  "expand g s w m u uc st =
   fold (\<lambda>e. fold (relax w m u uc e)
                 (filter (\<lambda>c. calculateChannelCost (channel_costs e) c w \<noteq> INF_val)
                    (possible_start_channels g s w u uc)))
        (adj_list g ! nat u) st"
proof -
  have "fold (relax w m u uc e) (possible_start_channels g s w u uc) =
        fold (relax w m u uc e)
          (filter (\<lambda>c. calculateChannelCost (channel_costs e) c w \<noteq> INF_val)
             (possible_start_channels g s w u uc))" for e
    by (rule ext) (rule fold_relax_filter)
  then show ?thesis by (simp add: expand_def)
qed

lemma reconstruct_loop_step:
  "n \<noteq> -1 \<Longrightarrow> reconstruct_loop prv n c acc =
     reconstruct_loop prv (fst (prv n c)) (snd (prv n c)) (acc @ [(n, c)])"
  by (subst reconstruct_loop.simps) simp

lemma reconstruct_loop_stop: "reconstruct_loop prv (-1) c acc = Some acc"
  by (subst reconstruct_loop.simps) simp

lemma calculateChannelCost_width_1:
  "0 \<le> c \<Longrightarrow> c + 1 \<le> CHANNELS \<Longrightarrow> calculateChannelCost costs c 1 = int32 (costs ! nat c)"
  by (simp add: calculateChannelCost_def int32_id CHANNELS_def)

lemma filter_upto_sorted:
  assumes "sorted cs" "distinct cs" "\<And>c. c \<in> set cs \<longleftrightarrow> i \<le> c \<and> c \<le> j \<and> P c"
  shows "filter P [i..j] = cs"
proof (rule sorted_distinct_set_unique)
  show "sorted (filter P [i..j])" by (simp add: sorted_wrt_filter)
  show "set (filter P [i..j]) = set cs" using assms(3) by auto
qed (use assms in auto)


text \<open>
  A graph of four nodes: edges \<open>0 - 2\<close>, \<open>2 - 3\<close> and \<open>2 - 1\<close>; node \<open>3\<close> converts, the
  others do not. On the edge \<open>0 - 2\<close> only channel \<open>0\<close> is usable, on \<open>2 - 1\<close> only
  channel \<open>1\<close>, on \<open>2 - 3\<close> both; a usable channel costs \<open>1\<close>, every other channel
  has the cost \<open>INF\<close>, which \<open>findShortestPath\<close> skips. The only way from \<open>0\<close> to \<open>1\<close>
  with width \<open>1\<close> enters node \<open>2\<close> on channel \<open>0\<close>, changes the channel at node
  \<open>3\<close> and comes back to node \<open>2\<close> on channel \<open>1\<close>.
\<close>

definition costs_a :: "int list" where
  "costs_a = (replicate 100 INF_val)[0 := 1]"

definition costs_b :: "int list" where
  "costs_b = (replicate 100 INF_val)[0 := 1, 1 := 1]"

definition costs_c :: "int list" where
  "costs_c = (replicate 100 INF_val)[1 := 1]"

definition duplicate_graph :: ChannelGraph where
  "duplicate_graph =
     \<lparr>node_count = 4,
      adj_list = [[\<lparr>to = 2, channel_costs = costs_a\<rparr>],
                  [\<lparr>to = 2, channel_costs = costs_c\<rparr>],
                  [\<lparr>to = 0, channel_costs = costs_a\<rparr>, \<lparr>to = 3, channel_costs = costs_b\<rparr>,
                   \<lparr>to = 1, channel_costs = costs_c\<rparr>],
                  [\<lparr>to = 2, channel_costs = costs_b\<rparr>]],
      node_support_convert = [False, False, False, True]\<rparr>"

lemma cost_a: "0 \<le> c \<Longrightarrow> c \<le> 99 \<Longrightarrow>
    calculateChannelCost costs_a c 1 = (if c = 0 then 1 else INF_val)"
  by (auto simp: calculateChannelCost_width_1 CHANNELS_def costs_a_def nth_list_update
      int32_def INF_val_def)

lemma cost_b: "0 \<le> c \<Longrightarrow> c \<le> 99 \<Longrightarrow>
    calculateChannelCost costs_b c 1 = (if c = 0 \<or> c = 1 then 1 else INF_val)"
  by (auto simp: calculateChannelCost_width_1 CHANNELS_def costs_b_def nth_list_update
      int32_def INF_val_def)

lemma cost_c: "0 \<le> c \<Longrightarrow> c \<le> 99 \<Longrightarrow>
    calculateChannelCost costs_c c 1 = (if c = 1 then 1 else INF_val)"
  by (auto simp: calculateChannelCost_width_1 CHANNELS_def costs_c_def nth_list_update
      int32_def INF_val_def)

lemma filter_a: "filter (\<lambda>c. calculateChannelCost costs_a c 1 \<noteq> INF_val) [0..99] = [0]"
  by (rule filter_upto_sorted) (auto simp: cost_a INF_val_def split: if_splits)

lemma filter_b: "filter (\<lambda>c. calculateChannelCost costs_b c 1 \<noteq> INF_val) [0..99] = [0, 1]"
  by (rule filter_upto_sorted) (auto simp: cost_b INF_val_def split: if_splits)

lemma duplicate_run:
  "search_loop duplicate_graph 0 1 1 (init_state 0 1) =
     Some ([(0, 0), (2, 0), (3, 0), (2, 1), (1, 1)], 4)"
proof -
  let ?g = duplicate_graph
  note graph = duplicate_graph_def possible_start_channels_def CHANNELS_def
  note costs = cost_a cost_b cost_c INF_val_def int32_def
  note filter_a = filter_a [unfolded INF_val_def] and filter_b = filter_b [unfolded INF_val_def]
  define st0 where "st0 = init_state 0 1"
  define q0 where "q0 = map (\<lambda>c. (0::int, 0::int, c)) [1..99]"
  have pq0: "pq st0 = (0, 0, 0) # q0"
    by (simp add: st0_def q0_def init_state_pq CHANNELS_def upto_rec1 [of 0 99])
  have d0: "dist st0 v c = (if v = 0 \<and> 0 \<le> c \<and> c \<le> 99 then 0 else INF_val)" for v c
    by (simp add: st0_def init_state_dist CHANNELS_def)
  have p0: "prev st0 v c = (-1, -1)" for v c
    by (simp add: st0_def init_state_prev)
  define st1 where "st1 = update_state 1 2 0 0 0 (st0\<lparr>pq := q0\<rparr>)"
  have e1: "expand ?g 0 1 0 0 0 (st0\<lparr>pq := q0\<rparr>) = st1"
    by (simp add: expand_filter graph filter_a relax_improve costs d0 st1_def)
  have A: "search_loop ?g 0 1 1 st0 = search_loop ?g 0 1 1 st1"
    using search_loop_expand_step [OF pq0, of 1 ?g 0 1] by (simp add: d0 e1)
  have pq1: "pq st1 = map (\<lambda>c. (0, 0, c)) [1..99] @ [(1, 2, 0)]"
    using insort_after_smaller [of q0 "(1, 2, 0)" "[]"]
    by (auto simp: st1_def update_state_def q0_def less_prod_def)
  define st2 where "st2 = st1\<lparr>pq := [(1, 2, 0)]\<rparr>"
  have B: "search_loop ?g 0 1 1 st1 = search_loop ?g 0 1 1 st2"
    unfolding st2_def
  proof (rule source_drain [OF _ pq1])
    show "\<forall>c \<in> set [1..99]. dist st1 0 c = 0" by (simp add: st1_def d0)
    show "\<forall>c \<in> set [1..99]. settled ?g 0 1 0 0 c st1"
      by (auto simp: settled_def graph costs st1_def d0)
  qed simp
  define st3 where "st3 = update_state 2 3 0 2 0 (st2\<lparr>pq := []\<rparr>)"
  have e3: "expand ?g 0 1 1 2 0 (st2\<lparr>pq := []\<rparr>) = st3"
    by (simp add: expand_filter graph relax_improve relax_keep costs d0 st1_def st2_def st3_def)
  have C: "search_loop ?g 0 1 1 st2 = search_loop ?g 0 1 1 st3"
  proof -
    have "pq st2 = (1, 2, 0) # []" by (simp add: st2_def st1_def update_state_def)
    moreover have "\<not> 1 > dist st2 2 0" by (simp add: st2_def st1_def d0)
    ultimately have "search_loop ?g 0 1 1 st2 =
        search_loop ?g 0 1 1 (expand ?g 0 1 1 2 0 (st2\<lparr>pq := []\<rparr>))"
      by (intro search_loop_expand_step) simp_all
    then show ?thesis by (simp only: e3)
  qed
  define st4 where "st4 = update_state 3 2 1 3 0 (st3\<lparr>pq := []\<rparr>)"
  have e4: "expand ?g 0 1 2 3 0 (st3\<lparr>pq := []\<rparr>) = st4"
    by (simp add: expand_filter graph filter_b relax_improve relax_keep costs d0
        st1_def st2_def st3_def st4_def)
  have D: "search_loop ?g 0 1 1 st3 = search_loop ?g 0 1 1 st4"
  proof -
    have "pq st3 = (2, 3, 0) # []" by (simp add: st3_def st2_def st1_def update_state_def)
    moreover have "\<not> 2 > dist st3 3 0" by (simp add: st3_def st2_def st1_def d0)
    ultimately have "search_loop ?g 0 1 1 st3 =
        search_loop ?g 0 1 1 (expand ?g 0 1 2 3 0 (st3\<lparr>pq := []\<rparr>))"
      by (intro search_loop_expand_step) simp_all
    then show ?thesis by (simp only: e4)
  qed
  define st5 where "st5 = update_state 4 1 1 2 1 (update_state 4 3 1 2 1 (st4\<lparr>pq := []\<rparr>))"
  have e5: "expand ?g 0 1 3 2 1 (st4\<lparr>pq := []\<rparr>) = st5"
    by (simp add: expand_filter graph relax_improve relax_keep costs d0
        st1_def st2_def st3_def st4_def st5_def)
  have E: "search_loop ?g 0 1 1 st4 = search_loop ?g 0 1 1 st5"
  proof -
    have "pq st4 = (3, 2, 1) # []" by (simp add: st4_def st3_def st2_def st1_def update_state_def)
    moreover have "\<not> 3 > dist st4 2 1" by (simp add: st4_def st3_def st2_def st1_def d0)
    ultimately have "search_loop ?g 0 1 1 st4 =
        search_loop ?g 0 1 1 (expand ?g 0 1 3 2 1 (st4\<lparr>pq := []\<rparr>))"
      by (intro search_loop_expand_step) simp_all
    then show ?thesis by (simp only: e5)
  qed
  have pq5: "pq st5 = (4, 1, 1) # [(4, 3, 1)]"
    by (simp add: st5_def update_state_def)
  have F: "search_loop ?g 0 1 1 st5 = reconstructPath (prev st5) 0 1 1 4"
    by (rule search_loop_found_step [OF pq5])
  have "reconstructPath (prev st5) 0 1 1 4 = Some ([(0, 0), (2, 0), (3, 0), (2, 1), (1, 1)], 4)"
    by (simp add: reconstructPath_def reconstruct_loop_step reconstruct_loop_stop
        st5_def st4_def st3_def st2_def st1_def p0)
  with A B C D E F show ?thesis by (simp add: st0_def)
qed

lemma costs_nonneg:
  "\<forall>y \<in> set costs_a. 0 \<le> y" "\<forall>y \<in> set costs_b. 0 \<le> y" "\<forall>y \<in> set costs_c. 0 \<le> y"
  by (auto simp: costs_a_def costs_b_def costs_c_def INF_val_def
      dest!: set_update_subset_insert [THEN subsetD])

lemma duplicate_graph_valid: "valid_graph duplicate_graph" "nonneg_costs duplicate_graph"
proof -
  show "valid_graph duplicate_graph"
    by (auto simp: valid_graph_def duplicate_graph_def CHANNELS_def costs_a_def costs_b_def
        costs_c_def)
  show "nonneg_costs duplicate_graph"
    using costs_nonneg by (auto simp: nonneg_costs_def duplicate_graph_def)
qed

lemma segment_sum_width_1: "segment_sum costs ch 1 = costs ! nat ch"
  by (simp add: segment_sum_def)

lemma duplicate_graph_bounded: "bounded_costs duplicate_graph 1"
  by (auto simp: bounded_costs_def duplicate_graph_def segment_sum_width_1 costs_a_def
      costs_b_def costs_c_def CHANNELS_def INF_val_def nth_list_update)

lemma duplicate_graph_built:
  "addEdge (new_ChannelGraph 4) 0 2 costs_a = Inr ga \<Longrightarrow>
   addEdge ga 2 3 costs_b = Inr gb \<Longrightarrow> addEdge gb 2 1 costs_c = Inr gc \<Longrightarrow>
   setNodeConversion gc 3 True = Inr gd \<Longrightarrow> gd = duplicate_graph"
  by (auto simp: addEdge_def setNodeConversion_def new_ChannelGraph_def emplace_edge_def
      duplicate_graph_def CHANNELS_def costs_a_def costs_b_def costs_c_def
      eval_nat_numeral split: if_splits)

lemma duplicate_query:
  "findShortestPath duplicate_graph 0 1 1 =
     Some (Inr ([(0, 0), (2, 0), (3, 0), (2, 1), (1, 1)], 4))"
  by (simp add: findShortestPath_def duplicate_run) (simp add: duplicate_graph_def)


text \<open>
  A run in which a sum wraps around: two nodes, one edge, every channel at the cost
  \<open>2^30\<close>. With width \<open>2\<close> the cost of a segment is \<open>2^31\<close>, which wraps around to
  \<open>-2^31\<close>; the target is taken from the queue at this cost, and the result is a path
  with a negative cost. Such costs are what \<open>bounded_costs\<close> excludes.
\<close>

definition overflow_graph :: ChannelGraph where
  "overflow_graph =
     \<lparr>node_count = 2,
      adj_list = [[\<lparr>to = 1, channel_costs = replicate 100 1073741824\<rparr>],
                  [\<lparr>to = 0, channel_costs = replicate 100 1073741824\<rparr>]],
      node_support_convert = [False, False]\<rparr>"

lemma overflow_cost:
  "0 \<le> c \<Longrightarrow> c \<le> 98 \<Longrightarrow>
   calculateChannelCost (replicate 100 1073741824) c 2 = - 2147483648"
  by (simp add: calculateChannelCost_def CHANNELS_def int32_def upto.simps)

lemma fold_relax_all:
  assumes "\<forall>c \<in> set cs. calculateChannelCost (channel_costs e) c w = k" "k \<noteq> INF_val"
    and "distinct cs"
  shows "\<forall>c \<in> set cs. int32 (m + k) < dist st (to e) c \<Longrightarrow>
         fold (relax w m u uc e) cs st =
           fold (\<lambda>c. update_state (int32 (m + k)) (to e) c u uc) cs st"
  using assms(1,3)
proof (induction cs arbitrary: st)
  case Nil
  then show ?case by simp
next
  case (Cons c cs)
  let ?st = "update_state (int32 (m + k)) (to e) c u uc st"
  from Cons.prems assms(2) have 1: "relax w m u uc e c st = ?st"
    by (simp add: relax_improve)
  from Cons.prems have "\<forall>c' \<in> set cs. int32 (m + k) < dist ?st (to e) c'" by auto
  from Cons.IH [OF this] Cons.prems 1 show ?case by simp
qed

lemma fold_update_fields:
  "prev (fold (\<lambda>c. update_state nc v c u uc) cs st) v' c' =
     (if v' = v \<and> c' \<in> set cs then (u, uc) else prev st v' c')"
  "set (pq (fold (\<lambda>c. update_state nc v c u uc) cs st)) = set (pq st) \<union> (\<lambda>c. (nc, v, c)) ` set cs"
  "sorted (pq (fold (\<lambda>c. update_state nc v c u uc) cs st)) = sorted (pq st)"
  by (induction cs arbitrary: st) auto

lemma overflow_run:
  "findShortestPath overflow_graph 0 1 2 = Some (Inr ([(0, 0), (1, 0)], - 2147483648))"
proof -
  let ?g = overflow_graph and ?e = "\<lparr>to = 1, channel_costs = replicate 100 1073741824\<rparr>"
  define st0 where "st0 = init_state 0 2"
  define q0 where "q0 = map (\<lambda>c. (0::int, 0::int, c)) [1..98]"
  have pq0: "pq st0 = (0, 0, 0) # q0"
    by (simp add: st0_def q0_def init_state_pq CHANNELS_def upto_rec1 [of 0 98])
  have d0: "dist st0 v c = (if v = 0 \<and> 0 \<le> c \<and> c \<le> 98 then 0 else INF_val)" for v c
    by (simp add: st0_def init_state_dist CHANNELS_def)
  have p0: "prev st0 v c = (-1, -1)" for v c
    by (simp add: st0_def init_state_prev)
  define st1 where
    "st1 = fold (\<lambda>c. update_state (- 2147483648) 1 c 0 0) [0..98] (st0\<lparr>pq := q0\<rparr>)"
  have "fold (relax 2 0 0 0 ?e) [0..98] (st0\<lparr>pq := q0\<rparr>) =
        fold (\<lambda>c. update_state (int32 (0 + - 2147483648)) (to ?e) c 0 0) [0..98] (st0\<lparr>pq := q0\<rparr>)"
    by (rule fold_relax_all) (auto simp: overflow_cost INF_val_def int32_def d0)
  then have e1: "expand ?g 0 2 0 0 0 (st0\<lparr>pq := q0\<rparr>) = st1"
    by (simp add: expand_def overflow_graph_def possible_start_channels_def CHANNELS_def
        st1_def int32_def)
  have A: "search_loop ?g 0 1 2 st0 = search_loop ?g 0 1 2 st1"
    using search_loop_expand_step [OF pq0, of 1 ?g 0 2] by (simp add: d0 e1)
  have set1: "set (pq st1) = set q0 \<union> (\<lambda>c. (- 2147483648, 1, c)) ` {0..98}"
    by (simp add: st1_def fold_update_fields)
  have "sorted (pq st0)" unfolding st0_def by (rule init_state_pq_sorted)
  with pq0 have "sorted q0" by simp
  then have sorted1: "sorted (pq st1)"
    by (simp add: st1_def fold_update_fields)
  have mem: "(- 2147483648, 1, 0) \<in> set (pq st1)" by (simp add: set1)
  then have ne: "pq st1 \<noteq> []" by auto
  then have "hd (pq st1) \<in> set (pq st1)" by simp
  moreover have "hd (pq st1) \<le> (- 2147483648, 1, 0)" by (rule sorted_hd_le [OF sorted1 mem])
  ultimately have hd1: "hd (pq st1) = (- 2147483648, 1, 0)"
    by (auto simp: set1 q0_def less_eq_prod_def)
  with ne have pq1: "pq st1 = (- 2147483648, 1, 0) # tl (pq st1)" by (cases "pq st1") auto
  have B: "search_loop ?g 0 1 2 st1 = reconstructPath (prev st1) 0 1 0 (- 2147483648)"
    by (rule search_loop_found_step [OF pq1])
  have p1: "prev st1 v c = (if v = 1 \<and> 0 \<le> c \<and> c \<le> 98 then (0, 0) else (-1, -1))" for v c
    by (simp add: st1_def fold_update_fields p0)
  have "reconstructPath (prev st1) 0 1 0 (- 2147483648) =
          Some ([(0, 0), (1, 0)], - 2147483648)"
    by (simp add: reconstructPath_def reconstruct_loop_step reconstruct_loop_stop p1)
  with A B show ?thesis
    by (simp add: findShortestPath_def st0_def) (simp add: overflow_graph_def)
qed


section \<open>Duplicate nodes in the returned path\<close>

text \<open>
  C1. The claim says that a returned path never contains a node twice. ChannelGraph.cpp has
  no guard against it: on the graph above the query from \<open>0\<close> to \<open>1\<close> with width \<open>1\<close>
  returns a path that visits node \<open>2\<close> twice.
\<close>

theorem findShortestPath_repeats_node:
  "findShortestPath duplicate_graph 0 1 1 =
     Some (Inr ([(0, 0), (2, 0), (3, 0), (2, 1), (1, 1)], 4)) \<and>
   \<not> distinct (map fst [(0::int, 0::int), (2, 0), (3, 0), (2, 1), (1, 1)])"
  using duplicate_query by simp


section \<open>The cost-only search of OptimizedEfficientGraph.cpp\<close>

text \<open>
  \<open>PrecomputedEdge\<close> holds the costs of all segments of width 1, 2 and 3 of one edge.
  \<open>findMinCost\<close> searches over states \<open>node * STATE_COUNT + channel\<close>, where the channel
  \<open>100\<close> means that no segment has been started; its queue holds pairs
  \<open>(cost, state)\<close> under \<open>greater<pair>\<close>. The fields \<open>to\<close> and \<open>n\<close> of the source carry a
  suffix here.
\<close>

definition INT_MAX :: int where
  "INT_MAX = 2147483647"

definition STATE_COUNT :: int where
  "STATE_COUNT = 101"

record PrecomputedEdge =
  to_pre :: int
  single_costs :: "int list"
  double_costs :: "int list"
  triple_costs :: "int list"

record OptimizedEfficientGraph =
  n_nodes :: int
  supports_switch :: "bool list"
  adj :: "PrecomputedEdge list list"

definition getSegmentCost :: "PrecomputedEdge \<Rightarrow> int \<Rightarrow> int \<Rightarrow> int" where
  "getSegmentCost edge start_channel segment_size =
     (if segment_size = 1 then single_costs edge ! nat start_channel
      else if segment_size = 2 then double_costs edge ! nat start_channel
      else if segment_size = 3 then triple_costs edge ! nat start_channel
      else INT_MAX)"

definition precomputeEdge :: "int \<Rightarrow> int list \<Rightarrow> PrecomputedEdge" where
  "precomputeEdge t costs =
     \<lparr>to_pre = t,
      single_costs = costs,
      double_costs = map (\<lambda>i. int32 (costs ! nat i + costs ! nat (i + 1))) [0..CHANNELS - 2],
      triple_costs = map (\<lambda>i. int32 (int32 (costs ! nat i + costs ! nat (i + 1)) + costs ! nat (i + 2)))
                       [0..CHANNELS - 3]\<rparr>"

record min_cost_state =
  mc_dist :: "int \<Rightarrow> int"
  mc_pq :: "(int \<times> int) list"

definition push_state :: "int \<Rightarrow> int \<Rightarrow> min_cost_state \<Rightarrow> min_cost_state" where
  "push_state new_state new_cost st =
     (if new_cost < mc_dist st new_state
      then st\<lparr>mc_dist := (mc_dist st)(new_state := new_cost),
              mc_pq := insort (new_cost, new_state) (mc_pq st)\<rparr>
      else st)"

definition start_new_sequence :: "int \<Rightarrow> PrecomputedEdge \<Rightarrow> min_cost_state \<Rightarrow> min_cost_state" where
  "start_new_sequence cost edge st =
     fold (\<lambda>seg_size.
             fold (\<lambda>start. push_state (int32 (int32 (to_pre edge * STATE_COUNT) + (start + seg_size - 1)))
                                       (int32 (cost + getSegmentCost edge start seg_size)))
                  [0..CHANNELS - seg_size])
          [1..3] st"

definition continue_sequence :: "int \<Rightarrow> int \<Rightarrow> PrecomputedEdge \<Rightarrow> min_cost_state \<Rightarrow> min_cost_state" where
  "continue_sequence cost channel edge st =
     (if channel < CHANNELS - 1
      then push_state (int32 (int32 (to_pre edge * STATE_COUNT) + (channel + 1)))
                      (int32 (cost + single_costs edge ! nat (channel + 1))) st
      else st)"

definition expand_edge ::
  "OptimizedEfficientGraph \<Rightarrow> int \<Rightarrow> int \<Rightarrow> int \<Rightarrow> PrecomputedEdge \<Rightarrow> min_cost_state \<Rightarrow> min_cost_state" where
  "expand_edge g cost u channel edge st =
     (if channel = 100 then start_new_sequence cost edge st
      else let st1 = continue_sequence cost channel edge st
           in if supports_switch g ! nat u \<or> channel \<ge> CHANNELS - 1
              then start_new_sequence cost edge st1 else st1)"

partial_function (option) findMinCost_loop ::
  "OptimizedEfficientGraph \<Rightarrow> int \<Rightarrow> min_cost_state \<Rightarrow> int option" where
  "findMinCost_loop g target st =
     (if mc_pq st = [] then Some (-1)
      else if fst (hd (mc_pq st)) > mc_dist st (snd (hd (mc_pq st)))
        then findMinCost_loop g target (st\<lparr>mc_pq := tl (mc_pq st)\<rparr>)
      else if snd (hd (mc_pq st)) sdiv STATE_COUNT = target \<and>
              snd (hd (mc_pq st)) smod STATE_COUNT \<noteq> 100
        then Some (fst (hd (mc_pq st)))
      else findMinCost_loop g target
             (fold (expand_edge g (fst (hd (mc_pq st))) (snd (hd (mc_pq st)) sdiv STATE_COUNT)
                      (snd (hd (mc_pq st)) smod STATE_COUNT))
                   (adj g ! nat (snd (hd (mc_pq st)) sdiv STATE_COUNT))
                   (st\<lparr>mc_pq := tl (mc_pq st)\<rparr>)))"

declare findMinCost_loop.simps [code]

definition findMinCost :: "OptimizedEfficientGraph \<Rightarrow> int \<Rightarrow> int \<Rightarrow> int option" where
  "findMinCost g source target =
     findMinCost_loop g target
       \<lparr>mc_dist = (\<lambda>_. INT_MAX)(int32 (int32 (source * STATE_COUNT) + 100) := 0),
        mc_pq = [(0, int32 (int32 (source * STATE_COUNT) + 100))]\<rparr>"


section \<open>The segment cost index\<close>

text \<open>
  C6. For a cost vector of \<open>CHANNELS\<close> values of the type \<open>int\<close>, a width \<open>w\<close> in
  \<open>{1, 2, 3}\<close> and a start with \<open>0 \<le> start\<close> and \<open>start + w \<le> CHANNELS\<close>, the lookup
  \<open>getSegmentCost\<close> in the precomputed edge returns the value that \<open>calculateChannelCost\<close>
  computes by summation, wrap-around included; and where the costs are not negative and the
  sum of the segment is at most \<open>INT_MAX\<close>, so that no addition wraps around, both are the
  sum of the costs \<open>costs[start .. start + w)\<close>.
\<close>

theorem getSegmentCost_is_sum:
  assumes "int (length costs) = CHANNELS" "w = 1 \<or> w = 2 \<or> w = 3" "0 \<le> start" "start + w \<le> CHANNELS"
    and "\<forall>x \<in> set costs. - 2147483648 \<le> x \<and> x \<le> 2147483647"
  shows "getSegmentCost (precomputeEdge t costs) start w = calculateChannelCost costs start w \<and>
         ((\<forall>x \<in> set costs. 0 \<le> x) \<and> sum_list (take (nat w) (drop (nat start) costs)) \<le> INT_MAX \<longrightarrow>
            getSegmentCost (precomputeEdge t costs) start w =
              sum_list (take (nat w) (drop (nat start) costs)))"
proof -
  have u1: "[0..(0::int)] = [0]" and u2: "[0..(1::int)] = [0, 1]" and u3: "[0..(2::int)] = [0, 1, 2]"
    by (simp_all add: upto.simps)
  have r: "int32 (costs ! nat (start + i)) = costs ! nat (start + i)" if "0 \<le> i" "i < w" for i
  proof -
    from that assms(1,3,4) have "nat (start + i) < length costs" by (simp add: CHANNELS_def)
    then have "costs ! nat (start + i) \<in> set costs" by simp
    with assms(5) show ?thesis by (intro int32_id) auto
  qed
  from assms(2,3,4) have "- 2147483648 \<le> start + w" "start + w \<le> 2147483647"
    by (auto simp: CHANNELS_def)
  with assms(4) have guard: "\<not> int32 (start + w) > CHANNELS" by (simp add: int32_id)
  have eq: "getSegmentCost (precomputeEdge t costs) start w = calculateChannelCost costs start w"
    using assms(1-4) guard r [of 0]
    by (auto simp: getSegmentCost_def precomputeEdge_def calculateChannelCost_def CHANNELS_def
        u1 u2 u3 nth_upto add.assoc)
  have td: "take (nat w) (drop (nat start) costs) =
            map (\<lambda>i. costs ! nat (start + i)) [0..w - 1]"
  proof (rule nth_equalityI)
    show "length (take (nat w) (drop (nat start) costs)) =
          length (map (\<lambda>i. costs ! nat (start + i)) [0..w - 1])"
      using assms by (auto simp: CHANNELS_def)
  next
    fix i assume "i < length (take (nat w) (drop (nat start) costs))"
    then have i: "i < nat w" "nat start + i < length costs" by auto
    then have "[0..w - 1] ! i = int i" by (simp add: nth_upto)
    with i assms(3) show "take (nat w) (drop (nat start) costs) ! i =
        map (\<lambda>i. costs ! nat (start + i)) [0..w - 1] ! i"
      by (simp add: nat_add_distrib)
  qed
  have "calculateChannelCost costs start w = sum_list (take (nat w) (drop (nat start) costs))"
    if nn: "\<forall>x \<in> set costs. 0 \<le> x"
      and le: "sum_list (take (nat w) (drop (nat start) costs)) \<le> INT_MAX"
  proof -
    from assms(2,3,4) have "in_range w start" "0 \<le> w" by (auto simp: in_range_def)
    moreover from le have "segment_sum costs start w \<le> INF_val"
      by (simp add: td segment_sum_def INF_val_def INT_MAX_def)
    ultimately have "calculateChannelCost costs start w = segment_sum costs start w"
      by (intro calculateChannelCost_sum [OF nn assms(1)])
    then show ?thesis by (simp add: td segment_sum_def)
  qed
  with eq show ?thesis by simp
qed

theorem getSegmentCost_is_sum_witness:
  "getSegmentCost (precomputeEdge 1 (replicate 100 5)) 10 3 = 15 \<and>
   calculateChannelCost (replicate 100 5) 10 3 = 15 \<and>
   getSegmentCost (precomputeEdge 1 (replicate 100 2147483647)) 0 2 = - 2 \<and>
   calculateChannelCost (replicate 100 2147483647) 0 2 = - 2"
proof -
  have "calculateChannelCost (replicate 100 2147483647) 0 2 = - 2"
    by (simp add: calculateChannelCost_def CHANNELS_def int32_def upto.simps)
  with getSegmentCost_is_sum [of "replicate 100 5" 3 10 1]
    getSegmentCost_is_sum [of "replicate 100 2147483647" 2 0 1]
  show ?thesis by (auto simp: CHANNELS_def INT_MAX_def sum_list_replicate)
qed

section \<open>Spectrum continuity\<close>

lemma push_state_pq:
  "set (mc_pq (push_state new_state new_cost st)) \<subseteq> insert (new_cost, new_state) (set (mc_pq st))"
  by (auto simp: push_state_def set_insort_key)

lemma expand_edge_continue_only:
  assumes "channel \<noteq> 100" "channel < CHANNELS - 1" "\<not> supports_switch og ! nat u"
  shows "set (mc_pq (expand_edge og c u channel edge st)) \<subseteq>
           insert (int32 (c + single_costs edge ! nat (channel + 1)),
                   int32 (int32 (to_pre edge * STATE_COUNT) + (channel + 1))) (set (mc_pq st))"
  using assms push_state_pq [of "int32 (int32 (to_pre edge * STATE_COUNT) + (channel + 1))"
      "int32 (c + single_costs edge ! nat (channel + 1))" st]
  by (simp add: expand_edge_def continue_sequence_def Let_def)

lemma relax_new_entry:
  "set (pq (relax w m u uc e vc st)) \<subseteq> set (pq st) \<union> {x. snd (snd x) = vc}"
  using relax_eq_update [of w m u uc e vc st] by auto

lemma expand_keeps_channel:
  assumes "\<not> node_support_convert g ! nat u" "u \<noteq> s"
  shows "set (pq (expand g s w m u uc st)) \<subseteq> set (pq st) \<union> {x. snd (snd x) = uc}"
proof (rule expand_invariant
    [where P = "\<lambda>st' :: search_state. set (pq st') \<subseteq> set (pq st) \<union> {x. snd (snd x) = uc}"])
  show "set (pq st) \<subseteq> set (pq st) \<union> {x. snd (snd x) = uc}" by auto
next
  fix e vc and st' :: search_state
  assume "vc \<in> set (possible_start_channels g s w u uc)"
    and st': "set (pq st') \<subseteq> set (pq st) \<union> {x. snd (snd x) = uc}"
  with assms have "vc = uc" by (simp add: possible_start_channels_def)
  with relax_new_entry [of w m u uc e vc st'] st'
  show "set (pq (relax w m u uc e vc st')) \<subseteq> set (pq st) \<union> {x. snd (snd x) = uc}"
    by auto
qed


text \<open>
  C2. In a path returned by \<open>findShortestPath\<close> on a valid graph with non-negative costs
  that are small enough for the sums of the search (\<open>bounded_costs\<close>),
  an intermediate node \<open>path ! i\<close> (\<open>0 < i\<close>, not the last) that does not support
  conversion is left on the start channel on which it was entered: the channel recorded at
  the next node equals the channel recorded at the node itself. On the side of the search:
  the expansion of a state of a non-converting node other than the source queues only states
  with the same start channel; and in \<open>findMinCost\<close> of OptimizedEfficientGraph.cpp, the
  expansion of a started state (\<open>channel \<noteq> 100\<close>) of a non-converting node below the end
  of the spectrum queues nothing but the continuation on the next channel, never the start
  of a new segment.
\<close>

theorem spectrum_continuity:
  "(valid_graph g \<and> nonneg_costs g \<and> bounded_costs g width \<and>
      findShortestPath g source target width = Some (Inr (path, cost)) \<and>
      0 < i \<and> Suc i < length path \<and> \<not> node_support_convert g ! nat (fst (path ! i)) \<longrightarrow>
      snd (path ! Suc i) = snd (path ! i)) \<and>
   (\<not> node_support_convert g ! nat u \<and> u \<noteq> source \<longrightarrow>
      set (pq (expand g source width m u u_start_ch st)) \<subseteq>
        set (pq st) \<union> {x. snd (snd x) = u_start_ch}) \<and>
   (channel \<noteq> 100 \<and> channel < CHANNELS - 1 \<and> \<not> supports_switch og ! nat v \<longrightarrow>
      set (mc_pq (expand_edge og c v channel edge mst)) \<subseteq>
        insert (int32 (c + single_costs edge ! nat (channel + 1)),
                int32 (int32 (to_pre edge * STATE_COUNT) + (channel + 1))) (set (mc_pq mst)))"
  using findShortestPath_continuity [of g width source target path cost i]
    expand_keeps_channel [of g u source width m u_start_ch st]
    expand_edge_continue_only [of channel og v c edge mst]
  by blast


theorem spectrum_continuity_witness:
  "findShortestPath duplicate_graph 0 1 1 =
     Some (Inr ([(0, 0), (2, 0), (3, 0), (2, 1), (1, 1)], 4)) \<and>
   snd ([(0::int, 0::int), (2, 0), (3, 0), (2, 1), (1, 1)] ! Suc 1) =
   snd ([(0::int, 0::int), (2, 0), (3, 0), (2, 1), (1, 1)] ! 1) \<and>
   set (pq (expand duplicate_graph 0 1 3 2 1
              \<lparr>dist = (\<lambda>_ _. INF_val), prev = (\<lambda>_ _. (-1, -1)), pq = []\<rparr>))
     \<subseteq> {x. snd (snd x) = 1} \<and>
   set (mc_pq (expand_edge \<lparr>n_nodes = 1, supports_switch = [False], adj = [[]]\<rparr> 0 0 5
                (precomputeEdge 0 (replicate 100 7)) \<lparr>mc_dist = (\<lambda>_. INT_MAX), mc_pq = []\<rparr>))
     \<subseteq> {(7, 6)}"
  using spectrum_continuity [where g = duplicate_graph and source = 0 and target = 1
      and width = 1 and path = "[(0, 0), (2, 0), (3, 0), (2, 1), (1, 1)]" and cost = 4
      and i = 1 and u = 2 and m = 3 and u_start_ch = 1
      and st = "\<lparr>dist = (\<lambda>_ _. INF_val), prev = (\<lambda>_ _. (-1, -1)), pq = []\<rparr>"
      and channel = 5 and og = "\<lparr>n_nodes = 1, supports_switch = [False], adj = [[]]\<rparr>"
      and v = 0 and c = 0 and edge = "precomputeEdge 0 (replicate 100 7)"
      and mst = "\<lparr>mc_dist = (\<lambda>_. INT_MAX), mc_pq = []\<rparr>"]
    duplicate_query duplicate_graph_valid duplicate_graph_bounded
  by (simp add: duplicate_graph_def CHANNELS_def precomputeEdge_def STATE_COUNT_def int32_def)

section \<open>The class of OptimizedEfficientGraph1.cpp and OptimizedEfficientGraph3.cpp\<close>

text \<open>
  Both files declare the same class: an edge with its \<open>CHANNELS\<close> costs, the conversion
  flags, \<open>setChannelSwitchSupport\<close> and \<open>addEdge\<close>, word for word. The names carry the
  suffix \<open>3\<close> (\<open>_s\<close> for the fields of \<open>State\<close>), since \<open>Edge\<close>, \<open>addEdge\<close> and the
  others are taken by the other variants. \<open>addEdge\<close> indexes \<open>adj\<close> without a range check;
  an index outside the vector is \<open>UndefinedAccess\<close> here.

  \<open>findMinCostPath\<close> is the one of OptimizedEfficientGraph3.cpp: every state carries the
  set of the nodes it has visited. Its queue orders states by cost alone, so which of several
  states of least cost \<open>top\<close> returns is decided by the heap of the standard library;
  the model takes this choice as the parameter \<open>pick\<close>, which maps the queue to its top
  and the rest.
\<close>

definition MAX_SEGMENTS :: int where
  "MAX_SEGMENTS = 3"

record Edge3 =
  to3 :: int
  costs3 :: "int list"

record OptimizedEfficientGraph3 =
  n3 :: int
  supports_switch3 :: "bool list"
  adj3 :: "Edge3 list list"

definition new_OptimizedEfficientGraph3 :: "int \<Rightarrow> OptimizedEfficientGraph3" where
  "new_OptimizedEfficientGraph3 count =
     \<lparr>n3 = count, supports_switch3 = replicate (nat count) False,
      adj3 = replicate (nat count) []\<rparr>"

definition getSegmentCost3 :: "Edge3 \<Rightarrow> int \<Rightarrow> int \<Rightarrow> int" where
  "getSegmentCost3 edge start_channel segment_size =
     fold (\<lambda>i total. int32 (total + costs3 edge ! nat (start_channel + i))) [0..segment_size - 1] 0"

definition setChannelSwitchSupport3 ::
  "OptimizedEfficientGraph3 \<Rightarrow> int \<Rightarrow> bool \<Rightarrow> error + OptimizedEfficientGraph3" where
  "setChannelSwitchSupport3 g node_id supports =
     (if node_id \<ge> 0 \<and> node_id < n3 g
      then Inr (g\<lparr>supports_switch3 := (supports_switch3 g)[nat node_id := supports]\<rparr>)
      else Inr g)"

definition addEdge3 ::
  "OptimizedEfficientGraph3 \<Rightarrow> int \<Rightarrow> int \<Rightarrow> int list \<Rightarrow> error + OptimizedEfficientGraph3" where
  "addEdge3 g u v cost_vector =
     (if int (length cost_vector) \<noteq> CHANNELS then Inl InvalidArgument
      else if u < 0 \<or> u \<ge> int (length (adj3 g)) \<or> v < 0 \<or> v \<ge> int (length (adj3 g))
        then Inl UndefinedAccess
      else Inr (g\<lparr>adj3 :=
                  (let adj_u = (adj3 g)[nat u := adj3 g ! nat u @ [\<lparr>to3 = v, costs3 = cost_vector\<rparr>]]
                   in adj_u[nat v := adj_u ! nat v @ [\<lparr>to3 = u, costs3 = cost_vector\<rparr>]])\<rparr>))"

record State3 =
  cost_s :: int
  node_s :: int
  channel_s :: int
  consecutive_s :: int
  visited_s :: "int set"

record path_search =
  queue :: "State3 list"
  min_cost :: int
  best_state :: "State3 option"
  best_predecessor :: "int \<rightharpoonup> State3"

definition state_key :: "int \<Rightarrow> int \<Rightarrow> int \<Rightarrow> int" where
  "state_key v ch cons = int32 (int32 (int32 (v * 1000) + int32 (ch * 10)) + cons)"

definition push_new :: "State3 \<Rightarrow> int \<Rightarrow> int \<Rightarrow> int \<Rightarrow> int \<Rightarrow> path_search \<Rightarrow> path_search" where
  "push_new current v ch cons new_cost srch =
     srch\<lparr>best_predecessor := (best_predecessor srch)(state_key v ch cons \<mapsto> current),
          queue := queue srch @
            [\<lparr>cost_s = new_cost, node_s = v, channel_s = ch, consecutive_s = cons,
              visited_s = insert v (visited_s current)\<rparr>]\<rparr>"

definition start_segments :: "State3 \<Rightarrow> Edge3 \<Rightarrow> path_search \<Rightarrow> path_search" where
  "start_segments current edge srch =
     fold (\<lambda>seg_size.
             fold (\<lambda>start srch.
                     let new_cost = int32 (cost_s current + getSegmentCost3 edge start seg_size)
                     in if new_cost \<ge> min_cost srch then srch
                        else push_new current (to3 edge) (start + seg_size - 1) seg_size new_cost srch)
                  [0..CHANNELS - seg_size])
          [1..MAX_SEGMENTS] srch"

definition continue_segment :: "State3 \<Rightarrow> Edge3 \<Rightarrow> path_search \<Rightarrow> path_search" where
  "continue_segment current edge srch =
     (if channel_s current < CHANNELS - 1 \<and> consecutive_s current < MAX_SEGMENTS
      then let next_channel = channel_s current + 1;
               new_cost = int32 (cost_s current + costs3 edge ! nat next_channel)
           in if new_cost < min_cost srch
              then push_new current (to3 edge) next_channel (consecutive_s current + 1) new_cost srch
              else srch
      else srch)"

definition expand_edge3 ::
  "OptimizedEfficientGraph3 \<Rightarrow> State3 \<Rightarrow> Edge3 \<Rightarrow> path_search \<Rightarrow> path_search" where
  "expand_edge3 g current edge srch =
     (if to3 edge \<in> visited_s current then srch
      else if channel_s current = -1 then start_segments current edge srch
      else let srch1 = continue_segment current edge srch
           in if supports_switch3 g ! nat (node_s current) \<or> channel_s current \<ge> CHANNELS - 1 \<or>
                 consecutive_s current = MAX_SEGMENTS
              then start_segments current edge srch1 else srch1)"

partial_function (option) path_loop ::
  "(State3 list \<Rightarrow> State3 \<times> State3 list) \<Rightarrow> OptimizedEfficientGraph3 \<Rightarrow> int \<Rightarrow>
     path_search \<Rightarrow> path_search option" where
  "path_loop pick g target srch =
     (if queue srch = [] then Some srch
      else if cost_s (fst (pick (queue srch))) > min_cost srch
        then path_loop pick g target (srch\<lparr>queue := snd (pick (queue srch))\<rparr>)
      else if node_s (fst (pick (queue srch))) = target
        then path_loop pick g target
               (if cost_s (fst (pick (queue srch))) < min_cost srch
                then srch\<lparr>queue := snd (pick (queue srch)),
                          min_cost := cost_s (fst (pick (queue srch))),
                          best_state := Some (fst (pick (queue srch)))\<rparr>
                else srch\<lparr>queue := snd (pick (queue srch))\<rparr>)
      else path_loop pick g target
             (fold (expand_edge3 g (fst (pick (queue srch))))
                   (adj3 g ! nat (node_s (fst (pick (queue srch)))))
                   (srch\<lparr>queue := snd (pick (queue srch))\<rparr>)))"

partial_function (option) collect_states ::
  "(int \<rightharpoonup> State3) \<Rightarrow> int \<Rightarrow> State3 \<Rightarrow> State3 list \<Rightarrow> State3 list option" where
  "collect_states predecessor source current reverse_states =
     (if node_s current = source then Some (reverse_states @ [current])
      else case predecessor (state_key (node_s current) (channel_s current) (consecutive_s current)) of
             None \<Rightarrow> Some (reverse_states @ [current])
           | Some p \<Rightarrow> collect_states predecessor source p (reverse_states @ [current]))"

definition path_entry :: "int \<Rightarrow> int \<Rightarrow> State3 \<Rightarrow> int \<times> int" where
  "path_entry source target state =
     (let start_channel =
            (if channel_s state \<noteq> -1
             then int32 (int32 (channel_s state - consecutive_s state) + 1) else -1)
      in if node_s state = source \<or> node_s state = target then (node_s state, -1)
         else (node_s state, start_channel))"

definition reconstructPath3 ::
  "State3 option \<Rightarrow> (int \<rightharpoonup> State3) \<Rightarrow> int \<Rightarrow> int \<Rightarrow> (int \<times> int) list option" where
  "reconstructPath3 final_state predecessor source target =
     (case final_state of
        None \<Rightarrow> Some []
      | Some f \<Rightarrow> map_option (\<lambda>reverse_states. map (path_entry source target) (rev reverse_states))
                    (collect_states predecessor source f []))"

definition findMinCostPath3 ::
  "(State3 list \<Rightarrow> State3 \<times> State3 list) \<Rightarrow> OptimizedEfficientGraph3 \<Rightarrow> int \<Rightarrow> int \<Rightarrow>
     (int \<times> int) list option" where
  "findMinCostPath3 pick g source target =
     (if source = target then Some [(source, -1)]
      else case path_loop pick g target
                  \<lparr>queue = [\<lparr>cost_s = 0, node_s = source, channel_s = -1, consecutive_s = 0,
                             visited_s = {source}\<rparr>],
                   min_cost = INT_MAX, best_state = None, best_predecessor = Map.empty\<rparr> of
             None \<Rightarrow> None
           | Some srch \<Rightarrow> reconstructPath3 (best_state srch) (best_predecessor srch) source target)"

section \<open>The search of ChannelGraph2.cpp\<close>

text \<open>
  ChannelGraph2.cpp is ChannelGraph.cpp with a \<open>visited\<close> table over (node, start channel)
  and a \<open>reconstructPath\<close> that throws \<open>runtime_error\<close> when the walk along the
  predecessors meets a node twice or when the rebuilt path does not start at the source. The
  names carry the suffix \<open>2\<close>. \<open>path[0]\<close> of an empty path is \<open>UndefinedAccess\<close>.
\<close>

record search_state2 =
  dist2 :: "int \<Rightarrow> int \<Rightarrow> int"
  prev2 :: "int \<Rightarrow> int \<Rightarrow> int \<times> int"
  visited2 :: "int \<Rightarrow> int \<Rightarrow> bool"
  pq2 :: "(int \<times> int \<times> int) list"

partial_function (option) reconstruct_loop2 ::
  "(int \<Rightarrow> int \<Rightarrow> int \<times> int) \<Rightarrow> int \<Rightarrow> int \<Rightarrow> int set \<Rightarrow> (int \<times> int) list \<Rightarrow>
     (error + (int \<times> int) list) option" where
  "reconstruct_loop2 prv current_node current_ch visited_nodes path =
     (if current_node \<noteq> -1
      then if current_node \<in> visited_nodes then Some (Inl RuntimeError)
           else reconstruct_loop2 prv (fst (prv current_node current_ch))
                  (snd (prv current_node current_ch)) (insert current_node visited_nodes)
                  (path @ [(current_node, current_ch)])
      else Some (Inr path))"

definition reconstructPath2 ::
  "(int \<Rightarrow> int \<Rightarrow> int \<times> int) \<Rightarrow> int \<Rightarrow> int \<Rightarrow> int \<Rightarrow> int \<Rightarrow>
     (error + (int \<times> int) list \<times> int) option" where
  "reconstructPath2 prv source target target_ch cost =
     (case reconstruct_loop2 prv target target_ch {} [] of
        None \<Rightarrow> None
      | Some (Inl e) \<Rightarrow> Some (Inl e)
      | Some (Inr path) \<Rightarrow>
          (case rev path of
             [] \<Rightarrow> Some (Inl UndefinedAccess)
           | first # rest \<Rightarrow>
               if fst first \<noteq> source then Some (Inl RuntimeError)
               else Some (Inr (first # rest, cost))))"

definition possible_start_channels2 :: "ChannelGraph \<Rightarrow> int \<Rightarrow> int \<Rightarrow> int \<Rightarrow> int \<Rightarrow> int list" where
  "possible_start_channels2 g source width u u_start_ch =
     (if node_support_convert g ! nat u \<or> u = source then [0..CHANNELS - width]
      else if u_start_ch \<le> CHANNELS - width then [u_start_ch] else [])"

definition relax2 :: "int \<Rightarrow> int \<Rightarrow> int \<Rightarrow> int \<Rightarrow> Edge \<Rightarrow> int \<Rightarrow> search_state2 \<Rightarrow> search_state2" where
  "relax2 width current_cost u u_start_ch edge v_start_ch st =
     (if visited2 st (to edge) v_start_ch then st
      else let channel_cost = calculateChannelCost (channel_costs edge) v_start_ch width in
        if channel_cost = INF_val then st
        else let new_cost = int32 (current_cost + channel_cost); v = to edge in
          if new_cost < dist2 st v v_start_ch
          then st\<lparr>dist2 := (dist2 st)(v := (dist2 st v)(v_start_ch := new_cost)),
                  prev2 := (prev2 st)(v := (prev2 st v)(v_start_ch := (u, u_start_ch))),
                  pq2 := insort (new_cost, v, v_start_ch) (pq2 st)\<rparr>
          else st)"

definition expand2 :: "ChannelGraph \<Rightarrow> int \<Rightarrow> int \<Rightarrow> int \<Rightarrow> int \<Rightarrow> int \<Rightarrow> search_state2 \<Rightarrow> search_state2" where
  "expand2 g source width current_cost u u_start_ch st =
     fold (\<lambda>edge. fold (relax2 width current_cost u u_start_ch edge)
                       (possible_start_channels2 g source width u u_start_ch))
          (adj_list g ! nat u) st"

definition pop2 :: "search_state2 \<Rightarrow> search_state2" where
  "pop2 st = st\<lparr>pq2 := tl (pq2 st)\<rparr>"

definition mark_visited :: "int \<Rightarrow> int \<Rightarrow> search_state2 \<Rightarrow> search_state2" where
  "mark_visited u u_start_ch st =
     st\<lparr>visited2 := (visited2 st)(u := (visited2 st u)(u_start_ch := True))\<rparr>"

partial_function (option) search_loop2 ::
  "ChannelGraph \<Rightarrow> int \<Rightarrow> int \<Rightarrow> int \<Rightarrow> search_state2 \<Rightarrow>
     (error + (int \<times> int) list \<times> int) option" where
  "search_loop2 g source target width st =
     (if pq2 st = [] then Some (Inr ([], INF_val))
      else if visited2 st (fst (snd (hd (pq2 st)))) (snd (snd (hd (pq2 st))))
        then search_loop2 g source target width (pop2 st)
      else if fst (snd (hd (pq2 st))) = target
        then reconstructPath2 (prev2 st) source target (snd (snd (hd (pq2 st)))) (fst (hd (pq2 st)))
      else search_loop2 g source target width
             (expand2 g source width (fst (hd (pq2 st))) (fst (snd (hd (pq2 st))))
                (snd (snd (hd (pq2 st))))
                (mark_visited (fst (snd (hd (pq2 st)))) (snd (snd (hd (pq2 st)))) (pop2 st))))"

definition init_source2 :: "int \<Rightarrow> int \<Rightarrow> search_state2 \<Rightarrow> search_state2" where
  "init_source2 source start_ch st =
     st\<lparr>dist2 := (dist2 st)(source := (dist2 st source)(start_ch := 0)),
        pq2 := insort (0, source, start_ch) (pq2 st)\<rparr>"

definition findShortestPath2 ::
  "ChannelGraph \<Rightarrow> int \<Rightarrow> int \<Rightarrow> int \<Rightarrow> (error + (int \<times> int) list \<times> int) option" where
  "findShortestPath2 g source target width =
     (if width < 1 \<or> width > 3 then Some (Inl InvalidArgument)
      else if source < 0 \<or> source \<ge> node_count g \<or> target < 0 \<or> target \<ge> node_count g
        then Some (Inl OutOfRange)
      else search_loop2 g source target width
             (fold (init_source2 source) [0..CHANNELS - width]
                \<lparr>dist2 = (\<lambda>_ _. INF_val), prev2 = (\<lambda>_ _. (-1, -1)),
                 visited2 = (\<lambda>_ _. False), pq2 = []\<rparr>))"


lemma reconstruct_loop2_chain:
  assumes "reconstruct_loop2 prv n c vis acc = Some (Inr p)"
  shows "\<exists>ch. p = acc @ ch \<and> is_chain prv n c ch \<and> distinct (map fst ch) \<and>
              fst ` set ch \<inter> vis = {}"
proof -
  let ?P = "\<lambda>prv n c vis acc r. \<forall>p. r = (Inr p :: error + (int \<times> int) list) \<longrightarrow>
      (\<exists>ch. p = acc @ ch \<and> is_chain prv n c ch \<and> distinct (map fst ch) \<and>
            fst ` set ch \<inter> vis = {})"
  have "?P prv n c vis acc (Inr p)"
  proof (rule reconstruct_loop2.raw_induct [where P = ?P, OF _ assms], goal_cases)
    case (1 loop prv n c vis acc r)
    show ?case
    proof (intro allI impI)
      fix p assume r: "r = Inr p"
      show "\<exists>ch. p = acc @ ch \<and> is_chain prv n c ch \<and> distinct (map fst ch) \<and>
                 fst ` set ch \<inter> vis = {}"
      proof (cases "n = -1")
        case True
        with 1(2) r show ?thesis by simp
      next
        case False
        with 1(2) r have nv: "n \<notin> vis"
          and rec: "loop prv (fst (prv n c)) (snd (prv n c)) (insert n vis) (acc @ [(n, c)]) = Some (Inr p)"
          by (auto split: if_splits)
        from 1(1) [OF rec] obtain ch where ch: "p = (acc @ [(n, c)]) @ ch"
          "is_chain prv (fst (prv n c)) (snd (prv n c)) ch" "distinct (map fst ch)"
          "fst ` set ch \<inter> insert n vis = {}"
          by blast
        with False nv have "p = acc @ ((n, c) # ch) \<and> is_chain prv n c ((n, c) # ch) \<and>
            distinct (map fst ((n, c) # ch)) \<and> fst ` set ((n, c) # ch) \<inter> vis = {}"
          by auto
        then show ?thesis by blast
      qed
    qed
  qed
  then show ?thesis by simp
qed

lemma reconstructPath2_sound:
  assumes "reconstructPath2 prv source target target_ch cost = Some (Inr (path, k))"
  shows "k = cost \<and> path \<noteq> [] \<and> fst (hd path) = source \<and> distinct (map fst path) \<and>
         is_chain prv target target_ch (rev path)"
proof -
  from assms obtain p where p: "reconstruct_loop2 prv target target_ch {} [] = Some (Inr p)"
    and r: "rev p \<noteq> []" "fst (hd (rev p)) = source" "path = rev p" "k = cost"
    by (auto simp: reconstructPath2_def split: option.splits sum.splits list.splits if_splits)
  from reconstruct_loop2_chain [OF p] have "is_chain prv target target_ch p" "distinct (map fst p)"
    by auto
  with r show ?thesis by (simp add: rev_map [symmetric])
qed

lemma reconstruct_loop2_terminates:
  assumes bound: "\<And>v c. -1 \<le> fst (prv v c) \<and> fst (prv v c) < N"
  shows "-1 \<le> n \<Longrightarrow> n < N \<Longrightarrow> vis \<subseteq> {0..<N} \<Longrightarrow>
         \<exists>r. reconstruct_loop2 prv n c vis acc = Some r"
proof (induction "nat N - card vis" arbitrary: n c vis acc rule: less_induct)
  case less
  show ?case
  proof (cases "n = -1 \<or> n \<in> vis")
    case True
    then show ?thesis by (subst reconstruct_loop2.simps) auto
  next
    case False
    with less.prems have n: "n \<in> {0..<N}" "n \<notin> vis" by auto
    have fin: "finite vis" using less.prems(3) finite_subset by blast
    from n less.prems(3) have "vis \<subset> {0..<N}" by auto
    then have "card vis < card {0..<N}" by (intro psubset_card_mono) auto
    then have "nat N - card (insert n vis) < nat N - card vis"
      using n fin by simp
    from less.hyps [OF this, of "fst (prv n c)" "snd (prv n c)" "acc @ [(n, c)]"] bound n less.prems(3)
    obtain r where "reconstruct_loop2 prv (fst (prv n c)) (snd (prv n c)) (insert n vis)
        (acc @ [(n, c)]) = Some r" by auto
    with False show ?thesis by (subst reconstruct_loop2.simps) auto
  qed
qed

lemma reconstructPath2_terminates:
  assumes "\<And>v c. -1 \<le> fst (prv v c) \<and> fst (prv v c) < N" "-1 \<le> target" "target < N"
  shows "\<exists>r. reconstructPath2 prv source target target_ch cost = Some r"
proof -
  have "\<exists>r. reconstruct_loop2 prv target target_ch {} [] = Some r"
    by (rule reconstruct_loop2_terminates [where N = N]) (use assms in auto)
  then show ?thesis
    by (auto simp: reconstructPath2_def split: sum.splits list.splits)
qed

lemma search_loop2_sound:
  assumes "search_loop2 g s t w st = Some (Inr (path, cost))"
  shows "path = [] \<or> (fst (hd path) = s \<and> distinct (map fst path))"
proof -
  let ?P = "\<lambda>g' s' t' w' st r. s' = s \<longrightarrow>
      (\<forall>path cost. r = (Inr (path, cost) :: error + (int \<times> int) list \<times> int) \<longrightarrow>
         path = [] \<or> (fst (hd path) = s \<and> distinct (map fst path)))"
  have "?P g s t w st (Inr (path, cost))"
  proof (rule search_loop2.raw_induct [where P = ?P, OF _ assms], goal_cases)
    case (1 loop g' s' t' w' st r)
    show ?case
    proof (intro impI allI)
      fix path cost assume s: "s' = s" and r: "r = Inr (path, cost)"
      from 1(2) s r consider "path = []"
        | st' where "loop g' s t' w' st' = Some (Inr (path, cost))"
        | tc c where "reconstructPath2 (prev2 st) s t' tc c = Some (Inr (path, cost))"
        by (auto split: if_splits)
      then show "path = [] \<or> (fst (hd path) = s \<and> distinct (map fst path))"
      proof cases
        case 1
        then show ?thesis by simp
      next
        case 2
        from "1"(1) [OF this] show ?thesis by simp
      next
        case 3
        from reconstructPath2_sound [OF this] show ?thesis by simp
      qed
    qed
  qed
  then show ?thesis by simp
qed

lemma init_source2_fields:
  "dist2 (fold (init_source2 s) cs st) v c = (if v = s \<and> c \<in> set cs then 0 else dist2 st v c)"
  "prev2 (fold (init_source2 s) cs st) = prev2 st"
  "visited2 (fold (init_source2 s) cs st) = visited2 st"
  "set (pq2 (fold (init_source2 s) cs st)) = set (pq2 st) \<union> (\<lambda>c. (0, s, c)) ` set cs"
  "sorted (pq2 st) \<Longrightarrow> sorted (pq2 (fold (init_source2 s) cs st))"
  by (induction cs arbitrary: st) (auto simp: init_source2_def set_insort_key sorted_insort)

lemma init_source2_hd:
  assumes "w \<le> CHANNELS"
  shows "hd (pq2 (fold (init_source2 s) [0..CHANNELS - w]
           \<lparr>dist2 = d, prev2 = p, visited2 = vis, pq2 = []\<rparr>)) = (0, s, 0)"
    and "pq2 (fold (init_source2 s) [0..CHANNELS - w]
           \<lparr>dist2 = d, prev2 = p, visited2 = vis, pq2 = []\<rparr>) \<noteq> []"
proof -
  let ?q = "pq2 (fold (init_source2 s) [0..CHANNELS - w]
           \<lparr>dist2 = d, prev2 = p, visited2 = vis, pq2 = []\<rparr>)"
  have set: "set ?q = (\<lambda>c. (0, s, c)) ` {0..CHANNELS - w}"
    by (simp add: init_source2_fields)
  have sorted: "sorted ?q" by (simp add: init_source2_fields)
  from assms set have mem: "(0, s, 0) \<in> set ?q" by auto
  then show ne: "?q \<noteq> []" by auto
  then have "hd ?q \<in> set ?q" by simp
  with set obtain c where c: "hd ?q = (0, s, c)" "0 \<le> c" by auto
  from sorted_hd_le [OF sorted mem] c show "hd ?q = (0, s, 0)"
    by (simp add: less_eq_prod_def)
qed

lemma reconstructPath2_single:
  assumes "n \<noteq> -1" "fst (prv n c) = -1"
  shows "reconstructPath2 prv n n c k = Some (Inr ([(n, c)], k))"
proof -
  have "reconstruct_loop2 prv n c {} [] = reconstruct_loop2 prv (-1) (snd (prv n c)) {n} [(n, c)]"
    using assms by (subst reconstruct_loop2.simps) simp
  also have "\<dots> = Some (Inr [(n, c)])"
    by (subst reconstruct_loop2.simps) simp
  finally show ?thesis by (simp add: reconstructPath2_def)
qed

lemma findShortestPath2_same_node:
  assumes "1 \<le> w" "w \<le> 3" "0 \<le> s" "s < node_count g"
  shows "findShortestPath2 g s s w = Some (Inr ([(s, 0)], 0))"
proof -
  let ?st = "fold (init_source2 s) [0..CHANNELS - w]
               \<lparr>dist2 = (\<lambda>_ _. INF_val), prev2 = (\<lambda>_ _. (-1, -1)),
                visited2 = (\<lambda>_ _. False), pq2 = []\<rparr>"
  have w: "w \<le> CHANNELS" using assms by (simp add: CHANNELS_def)
  note hd = init_source2_hd [OF w, of s "\<lambda>_ _. INF_val" "\<lambda>_ _. (-1, -1)" "\<lambda>_ _. False"]
  have "search_loop2 g s s w ?st = reconstructPath2 (prev2 ?st) s s 0 0"
    using hd by (subst search_loop2.simps) (simp add: init_source2_fields)
  also have "\<dots> = Some (Inr ([(s, 0)], 0))"
    using assms by (intro reconstructPath2_single) (auto simp: init_source2_fields)
  finally show ?thesis using assms by (simp add: findShortestPath2_def)
qed

lemma findShortestPath2_sound:
  assumes "findShortestPath2 g s t w = Some (Inr (path, cost))"
  shows "path = [] \<or> (fst (hd path) = s \<and> distinct (map fst path))"
  using assms search_loop2_sound [of g s t w _ path cost]
  by (auto simp: findShortestPath2_def split: if_splits)

lemma collect_states_stop:
  "node_s f \<noteq> source \<Longrightarrow>
   predecessor (state_key (node_s f) (channel_s f) (consecutive_s f)) = None \<Longrightarrow>
   collect_states predecessor source f acc = Some (acc @ [f])"
  by (subst collect_states.simps) simp

lemma reconstructPath3_truncated:
  "node_s f \<noteq> source \<Longrightarrow>
   predecessor (state_key (node_s f) (channel_s f) (consecutive_s f)) = None \<Longrightarrow>
   reconstructPath3 (Some f) predecessor source target = Some [path_entry source target f]"
  by (simp add: reconstructPath3_def collect_states_stop)

lemma reconstruct_loop2_step:
  "n \<noteq> -1 \<Longrightarrow> n \<notin> vis \<Longrightarrow>
   reconstruct_loop2 prv n c vis acc =
     reconstruct_loop2 prv (fst (prv n c)) (snd (prv n c)) (insert n vis) (acc @ [(n, c)])"
  by (subst reconstruct_loop2.simps) simp

lemma reconstruct_loop2_repeated:
  "n \<noteq> -1 \<Longrightarrow> n \<in> vis \<Longrightarrow> reconstruct_loop2 prv n c vis acc = Some (Inl RuntimeError)"
  by (subst reconstruct_loop2.simps) simp

lemma reconstruct_loop2_stop: "reconstruct_loop2 prv (-1) c vis acc = Some (Inr acc)"
  by (subst reconstruct_loop2.simps) simp

definition chain_prev :: "int \<Rightarrow> int \<Rightarrow> int \<times> int" where
  "chain_prev v c = (if v = 2 \<and> c = 0 then (1, 0) else if v = 1 \<and> c = 0 then (0, 0) else (-1, -1))"

definition cycle_prev :: "int \<Rightarrow> int \<Rightarrow> int \<times> int" where
  "cycle_prev v c = (if v = 2 \<and> c = 0 then (1, 0) else if v = 1 \<and> c = 0 then (2, 0) else (-1, -1))"

lemma reconstructPath2_chain_prev:
  "reconstructPath2 chain_prev 0 2 0 8 = Some (Inr ([(0, 0), (1, 0), (2, 0)], 8))"
  by (simp add: reconstructPath2_def reconstruct_loop2_step reconstruct_loop2_stop chain_prev_def)

lemma reconstructPath2_cycle_prev:
  "reconstructPath2 cycle_prev 0 2 0 8 = Some (Inl RuntimeError)"
  by (simp add: reconstructPath2_def reconstruct_loop2_step reconstruct_loop2_repeated
      cycle_prev_def)

lemma reconstructPath2_wrong_start:
  "reconstructPath2 chain_prev 1 2 0 8 = Some (Inl RuntimeError)"
  by (simp add: reconstructPath2_def reconstruct_loop2_step reconstruct_loop2_stop chain_prev_def)


section \<open>Invariants of the search of ChannelGraph2.cpp\<close>

text \<open>
  An invariant rule for \<open>search_loop2\<close>, the range of the channels, and the invariant
  that gives the cost of the returned path. A state of the \<open>visited\<close> table was taken from
  the queue at its distance, which then never changes again, because \<open>relax2\<close> leaves
  visited states alone; so the distance of a state is the distance of its predecessor plus the
  segment cost of the edge, as long as no sum wraps around.
\<close>

lemma search_loop2_rule:
  assumes run: "search_loop2 g s t w st = Some r"
    and init: "I st"
    and skip: "\<And>st. I st \<Longrightarrow> pq2 st \<noteq> [] \<Longrightarrow>
                  visited2 st (fst (snd (hd (pq2 st)))) (snd (snd (hd (pq2 st)))) \<Longrightarrow> I (pop2 st)"
    and expand: "\<And>st. I st \<Longrightarrow> pq2 st \<noteq> [] \<Longrightarrow>
                  \<not> visited2 st (fst (snd (hd (pq2 st)))) (snd (snd (hd (pq2 st)))) \<Longrightarrow>
                  I (expand2 g s w (fst (hd (pq2 st))) (fst (snd (hd (pq2 st))))
                       (snd (snd (hd (pq2 st))))
                       (mark_visited (fst (snd (hd (pq2 st)))) (snd (snd (hd (pq2 st)))) (pop2 st)))"
    and empty: "Q (Inr ([], INF_val))"
    and found: "\<And>st r. I st \<Longrightarrow> pq2 st \<noteq> [] \<Longrightarrow>
                  \<not> visited2 st (fst (snd (hd (pq2 st)))) (snd (snd (hd (pq2 st)))) \<Longrightarrow>
                  fst (snd (hd (pq2 st))) = t \<Longrightarrow>
                  reconstructPath2 (prev2 st) s t (snd (snd (hd (pq2 st)))) (fst (hd (pq2 st))) = Some r \<Longrightarrow>
                  Q r"
  shows "Q r"
proof -
  let ?P = "\<lambda>g' s' t' w' st r. g' = g \<and> s' = s \<and> t' = t \<and> w' = w \<and> I st \<longrightarrow> Q r"
  have "?P g s t w st r"
  proof (rule search_loop2.raw_induct [where P = ?P, OF _ run], goal_cases)
    case (1 loop ga sa ta wa sta ra)
    show ?case
    proof (intro impI, elim conjE)
      assume eqs: "ga = g" "sa = s" "ta = t" "wa = w" and Ist: "I sta"
      note body = 1(2) [unfolded eqs] and IH = 1(1)
      show "Q ra"
      proof (cases "pq2 sta = []")
        case True
        with body empty show ?thesis by simp
      next
        case ne: False
        let ?vis = "visited2 sta (fst (snd (hd (pq2 sta)))) (snd (snd (hd (pq2 sta))))"
        from body ne consider "?vis" "loop g s t w (pop2 sta) = Some ra"
          | "\<not> ?vis" "fst (snd (hd (pq2 sta))) = t" "reconstructPath2 (prev2 sta) s t (snd (snd (hd (pq2 sta)))) (fst (hd (pq2 sta))) = Some ra"
          | "\<not> ?vis" "loop g s t w (expand2 g s w (fst (hd (pq2 sta))) (fst (snd (hd (pq2 sta))))
                       (snd (snd (hd (pq2 sta))))
                       (mark_visited (fst (snd (hd (pq2 sta)))) (snd (snd (hd (pq2 sta)))) (pop2 sta))) = Some ra"
          by (auto split: if_splits)
        then show ?thesis
        proof cases
          case 1
          from IH [OF 1(2)] skip [OF Ist ne 1(1)] show ?thesis by simp
        next
          case 2
          from found [OF Ist ne this] show ?thesis .
        next
          case 3
          from IH [OF 3(2)] expand [OF Ist ne 3(1)] show ?thesis by simp
        qed
      qed
    qed
  qed
  with init show ?thesis by simp
qed

definition range_ok2 :: "int \<Rightarrow> search_state2 \<Rightarrow> bool" where
  "range_ok2 w st \<longleftrightarrow>
     (\<forall>x \<in> set (pq2 st). in_range w (snd (snd x))) \<and>
     (\<forall>v ch. fst (prev2 st v ch) \<noteq> -1 \<longrightarrow> in_range w (snd (prev2 st v ch)))"

lemma possible2_in_range:
  "in_range w uc \<Longrightarrow> vc \<in> set (possible_start_channels2 g s w u uc) \<Longrightarrow> in_range w vc"
  by (auto simp: possible_start_channels2_def in_range_def split: if_splits)

lemma range_ok2_relax:
  assumes "range_ok2 w st" "in_range w uc" "in_range w vc"
  shows "range_ok2 w (relax2 w cc u uc e vc st)"
  using assms by (auto simp: range_ok2_def relax2_def Let_def set_insort_key)

lemma range_ok2_pop: "range_ok2 w st \<Longrightarrow> range_ok2 w (pop2 st)"
  by (cases "pq2 st") (auto simp: range_ok2_def pop2_def)

lemma range_ok2_mark: "range_ok2 w st \<Longrightarrow> range_ok2 w (mark_visited u uc st)"
  by (simp add: range_ok2_def mark_visited_def)

lemma expand2_invariant:
  assumes "P st"
    and "\<And>e vc st. vc \<in> set (possible_start_channels2 g s w u uc) \<Longrightarrow> P st \<Longrightarrow>
           P (relax2 w cc u uc e vc st)"
  shows "P (expand2 g s w cc u uc st)"
  unfolding expand2_def
proof (rule fold_invariant [where P = P])
  show "P st" by fact
next
  fix e st'
  assume "P st'"
  then show "P (fold (relax2 w cc u uc e) (possible_start_channels2 g s w u uc) st')"
    by (intro fold_invariant [where P = P]) (auto intro: assms(2))
qed

lemma findShortestPath2_in_range:
  assumes "findShortestPath2 g s t w = Some (Inr (path, cost))"
  shows "\<forall>x \<in> set path. in_range w (snd x)"
proof -
  let ?st0 = "fold (init_source2 s) [0..CHANNELS - w]
                \<lparr>dist2 = (\<lambda>_ _. INF_val), prev2 = (\<lambda>_ _. (-1, -1)),
                 visited2 = (\<lambda>_ _. False), pq2 = []\<rparr>"
  let ?Q = "\<lambda>r. \<forall>path cost. r = (Inr (path, cost) :: error + (int \<times> int) list \<times> int) \<longrightarrow>
                (\<forall>x \<in> set path. in_range w (snd x))"
  from assms have run: "search_loop2 g s t w ?st0 = Some (Inr (path, cost))"
    by (auto simp: findShortestPath2_def split: if_splits)
  have "?Q (Inr (path, cost))"
  proof (rule search_loop2_rule [where I = "range_ok2 w" and Q = ?Q, OF run])
    show "range_ok2 w ?st0"
      by (auto simp: range_ok2_def init_source2_fields in_range_def)
  next
    fix st assume "range_ok2 w st"
    then show "range_ok2 w (pop2 st)" by (rule range_ok2_pop)
  next
    fix st assume I: "range_ok2 w st" and ne: "pq2 st \<noteq> []"
    then have r: "in_range w (snd (snd (hd (pq2 st))))" by (simp add: range_ok2_def)
    show "range_ok2 w (expand2 g s w (fst (hd (pq2 st))) (fst (snd (hd (pq2 st))))
                       (snd (snd (hd (pq2 st))))
                       (mark_visited (fst (snd (hd (pq2 st)))) (snd (snd (hd (pq2 st)))) (pop2 st)))"
    proof (rule expand2_invariant [where P = "range_ok2 w"])
      show "range_ok2 w (mark_visited (fst (snd (hd (pq2 st)))) (snd (snd (hd (pq2 st)))) (pop2 st))"
        by (intro range_ok2_mark range_ok2_pop I)
    next
      fix e vc st'
      assume "vc \<in> set (possible_start_channels2 g s w (fst (snd (hd (pq2 st)))) (snd (snd (hd (pq2 st)))))"
        "range_ok2 w st'"
      then show "range_ok2 w (relax2 w (fst (hd (pq2 st))) (fst (snd (hd (pq2 st))))
                    (snd (snd (hd (pq2 st)))) e vc st')"
        by (intro range_ok2_relax r possible2_in_range [OF r])
    qed
  next
    show "?Q (Inr ([], INF_val))" by simp
  next
    fix st r
    assume I: "range_ok2 w st" and ne: "pq2 st \<noteq> []"
      and rc: "reconstructPath2 (prev2 st) s t (snd (snd (hd (pq2 st)))) (fst (hd (pq2 st))) = Some r"
    from I ne have r: "in_range w (snd (snd (hd (pq2 st))))" by (simp add: range_ok2_def)
    show "?Q r"
    proof (intro allI impI)
      fix p c assume "r = Inr (p, c)"
      with rc reconstructPath2_sound [of "prev2 st" s t _ _ p c]
      have "is_chain (prev2 st) t (snd (snd (hd (pq2 st)))) (rev p)" by simp
      from is_chain_in_range [OF this r] I have "\<forall>x \<in> set (rev p). in_range w (snd x)"
        by (auto simp: range_ok2_def)
      then show "\<forall>x \<in> set p. in_range w (snd x)" by simp
    qed
  qed
  then show ?thesis by simp
qed




text \<open>
  The visited states are states of the graph, and a queue entry costs at most \<open>B\<close> for each
  of them: a state is marked once, so no cost that the search computes exceeds \<open>INF\<close>.
\<close>

definition visited_set :: "search_state2 \<Rightarrow> (int \<times> int) set" where
  "visited_set st = {(v, c). visited2 st v c}"




definition update_state2 :: "int \<Rightarrow> int \<Rightarrow> int \<Rightarrow> int \<Rightarrow> int \<Rightarrow> search_state2 \<Rightarrow> search_state2" where
  "update_state2 nc v vc u uc st =
     st\<lparr>dist2 := (dist2 st)(v := (dist2 st v)(vc := nc)),
        prev2 := (prev2 st)(v := (prev2 st v)(vc := (u, uc))),
        pq2 := insort (nc, v, vc) (pq2 st)\<rparr>"

lemma update_state2_simps [simp]:
  "dist2 (update_state2 nc v vc u uc st) v' c' = (if v' = v \<and> c' = vc then nc else dist2 st v' c')"
  "prev2 (update_state2 nc v vc u uc st) v' c' = (if v' = v \<and> c' = vc then (u, uc) else prev2 st v' c')"
  "visited2 (update_state2 nc v vc u uc st) = visited2 st"
  "visited_set (update_state2 nc v vc u uc st) = visited_set st"
  "set (pq2 (update_state2 nc v vc u uc st)) = insert (nc, v, vc) (set (pq2 st))"
  "sorted (pq2 (update_state2 nc v vc u uc st)) = sorted (pq2 st)"
  by (auto simp: update_state2_def visited_set_def set_insort_key sorted_insort)















section \<open>Running the search of ChannelGraph2.cpp on a concrete graph\<close>

text \<open>
  The lemmas that evaluate \<open>search_loop\<close>, for \<open>search_loop2\<close>: the queue entries of the
  source that remain after its first expansion are marked and expanded without any other
  effect.
\<close>

lemma fold_init_source2_pq:
  "sorted cs \<Longrightarrow> distinct cs \<Longrightarrow> \<forall>y \<in> set (pq2 st). \<forall>c \<in> set cs. y < (0, s, c) \<Longrightarrow>
   pq2 (fold (init_source2 s) cs st) = pq2 st @ map (\<lambda>c. (0, s, c)) cs"
proof (induction cs arbitrary: st)
  case Nil
  then show ?case by simp
next
  case (Cons c cs)
  have 1: "pq2 (init_source2 s c st) = pq2 st @ [(0, s, c)]"
    using Cons.prems(3) insort_after_smaller [of "pq2 st" "(0, s, c)" "[]"]
    by (simp add: init_source2_def)
  have "pq2 (fold (init_source2 s) cs (init_source2 s c st)) =
          pq2 (init_source2 s c st) @ map (\<lambda>c. (0, s, c)) cs"
    using Cons.prems by (intro Cons.IH) (auto simp: 1 less_prod_def le_less)
  then show ?case by (simp add: 1)
qed

lemma fold_mark_visited:
  "visited2 (fold (mark_visited s) cs st) v c \<longleftrightarrow> visited2 st v c \<or> (v = s \<and> c \<in> set cs)"
  "dist2 (fold (mark_visited s) cs st) = dist2 st"
  "prev2 (fold (mark_visited s) cs st) = prev2 st"
  "pq2 (fold (mark_visited s) cs st) = pq2 st"
  by (induction cs arbitrary: st) (auto simp: mark_visited_def)

lemma relax2_skip:
  "visited2 st (to e) vc \<or> calculateChannelCost (channel_costs e) vc w = INF_val \<or>
   \<not> int32 (m + calculateChannelCost (channel_costs e) vc w) < dist2 st (to e) vc \<Longrightarrow>
   relax2 w m u uc e vc st = st"
  by (auto simp: relax2_def Let_def)

lemma relax2_improve:
  "\<not> visited2 st (to e) vc \<Longrightarrow> calculateChannelCost (channel_costs e) vc w \<noteq> INF_val \<Longrightarrow>
   int32 (m + calculateChannelCost (channel_costs e) vc w) < dist2 st (to e) vc \<Longrightarrow>
   relax2 w m u uc e vc st =
     update_state2 (int32 (m + calculateChannelCost (channel_costs e) vc w)) (to e) vc u uc st"
  by (simp add: relax2_def Let_def update_state2_def)

lemma fold_relax2_filter:
  "fold (relax2 w m u uc e) cs st =
   fold (relax2 w m u uc e)
     (filter (\<lambda>c. calculateChannelCost (channel_costs e) c w \<noteq> INF_val) cs) st"
  by (induction cs arbitrary: st) (auto simp: relax2_skip)

lemma expand2_filter:
  "expand2 g s w m u uc st =
   fold (\<lambda>e. fold (relax2 w m u uc e)
                 (filter (\<lambda>c. calculateChannelCost (channel_costs e) c w \<noteq> INF_val)
                    (possible_start_channels2 g s w u uc)))
        (adj_list g ! nat u) st"
proof -
  have "fold (relax2 w m u uc e) (possible_start_channels2 g s w u uc) =
        fold (relax2 w m u uc e)
          (filter (\<lambda>c. calculateChannelCost (channel_costs e) c w \<noteq> INF_val)
             (possible_start_channels2 g s w u uc))" for e
    by (rule ext) (rule fold_relax2_filter)
  then show ?thesis by (simp add: expand2_def)
qed

definition settled2 :: "ChannelGraph \<Rightarrow> int \<Rightarrow> int \<Rightarrow> int \<Rightarrow> int \<Rightarrow> int \<Rightarrow> search_state2 \<Rightarrow> bool" where
  "settled2 g s w m u uc st \<longleftrightarrow>
     (\<forall>e \<in> set (adj_list g ! nat u). \<forall>vc \<in> set (possible_start_channels2 g s w u uc).
        visited2 st (to e) vc \<or> calculateChannelCost (channel_costs e) vc w = INF_val \<or>
        \<not> int32 (m + calculateChannelCost (channel_costs e) vc w) < dist2 st (to e) vc)"

lemma expand2_settled:
  assumes "settled2 g s w m u uc st"
  shows "expand2 g s w m u uc st = st"
proof -
  have "fold (\<lambda>e. fold (relax2 w m u uc e) (possible_start_channels2 g s w u uc))
          (adj_list g ! nat u) st = st \<and> True"
  proof (rule fold_invariant [where P = "\<lambda>st'. st' = st \<and> True"])
    show "st = st \<and> True" by simp
  next
    fix e st'
    assume e: "e \<in> set (adj_list g ! nat u)" and "st' = st \<and> True"
    then have st': "st' = st" by simp
    have "fold (relax2 w m u uc e) (possible_start_channels2 g s w u uc) st = st \<and> True"
    proof (rule fold_invariant [where P = "\<lambda>st'. st' = st \<and> True"])
      show "st = st \<and> True" by simp
    next
      fix vc st''
      assume "vc \<in> set (possible_start_channels2 g s w u uc)" "st'' = st \<and> True"
      with assms e show "relax2 w m u uc e vc st'' = st \<and> True"
        by (auto simp: settled2_def intro!: relax2_skip)
    qed
    with st' show "fold (relax2 w m u uc e) (possible_start_channels2 g s w u uc) st' = st \<and> True"
      by simp
  qed
  then show ?thesis by (simp add: expand2_def)
qed

lemma mark_visited_pq: "mark_visited a b (st\<lparr>pq2 := q\<rparr>) = (mark_visited a b st)\<lparr>pq2 := q\<rparr>"
  by (simp add: mark_visited_def)

lemma fold_mark_visited_pq:
  "fold (mark_visited s) cs (st\<lparr>pq2 := q\<rparr>) = (fold (mark_visited s) cs st)\<lparr>pq2 := q\<rparr>"
  by (induction cs arbitrary: st) (simp_all add: mark_visited_pq)

lemma settled2_mark:
  "settled2 g s w m u uc st \<Longrightarrow> settled2 g s w m u uc (mark_visited a b (st\<lparr>pq2 := q\<rparr>))"
  by (auto simp: settled2_def mark_visited_def)

lemma search_loop2_expand_step:
  "pq2 st = (c, u, uc) # q \<Longrightarrow> \<not> visited2 st u uc \<Longrightarrow> u \<noteq> t \<Longrightarrow>
   search_loop2 g s t w st =
     search_loop2 g s t w (expand2 g s w c u uc (mark_visited u uc (st\<lparr>pq2 := q\<rparr>)))"
  by (subst search_loop2.simps) (simp add: pop2_def)

lemma search_loop2_found_step:
  "pq2 st = (c, t, uc) # q \<Longrightarrow> \<not> visited2 st t uc \<Longrightarrow>
   search_loop2 g s t w st = reconstructPath2 (prev2 st) s t uc c"
  by (subst search_loop2.simps) simp

lemma source_drain2:
  assumes "s \<noteq> t"
  shows "pq2 st = map (\<lambda>c. (0, s, c)) cs @ qs \<Longrightarrow> distinct cs \<Longrightarrow>
         \<forall>c \<in> set cs. \<not> visited2 st s c \<Longrightarrow> \<forall>c \<in> set cs. settled2 g s w 0 s c st \<Longrightarrow>
         search_loop2 g s t w st =
           search_loop2 g s t w ((fold (mark_visited s) cs st)\<lparr>pq2 := qs\<rparr>)"
proof (induction cs arbitrary: st)
  case Nil
  then have "st\<lparr>pq2 := qs\<rparr> = st" by simp
  then show ?case by simp
next
  case (Cons c cs)
  let ?st = "mark_visited s c (st\<lparr>pq2 := map (\<lambda>c. (0, s, c)) cs @ qs\<rparr>)"
  from Cons.prems(1) have top: "pq2 st = (0, s, c) # (map (\<lambda>c. (0, s, c)) cs @ qs)" by simp
  from Cons.prems(4) have "settled2 g s w 0 s c ?st" by (simp add: settled2_mark)
  then have ex: "expand2 g s w 0 s c ?st = ?st" by (rule expand2_settled)
  have "search_loop2 g s t w st = search_loop2 g s t w ?st"
    using search_loop2_expand_step [OF top, of t g s w] Cons.prems(3) assms ex by simp
  also have "\<dots> = search_loop2 g s t w ((fold (mark_visited s) cs ?st)\<lparr>pq2 := qs\<rparr>)"
  proof (rule Cons.IH)
    show "pq2 ?st = map (\<lambda>c. (0, s, c)) cs @ qs" by (simp add: mark_visited_def)
    from Cons.prems(2) show "distinct cs" by simp
    from Cons.prems(2,3) show "\<forall>c \<in> set cs. \<not> visited2 ?st s c"
      by (auto simp: mark_visited_def)
    from Cons.prems(4) show "\<forall>c \<in> set cs. settled2 g s w 0 s c ?st"
      by (simp add: settled2_mark)
  qed
  also have "(fold (mark_visited s) cs ?st)\<lparr>pq2 := qs\<rparr> =
             (fold (mark_visited s) (c # cs) st)\<lparr>pq2 := qs\<rparr>"
    by (simp add: mark_visited_pq fold_mark_visited_pq)
  finally show ?case .
qed

text \<open>
  On the graph of four nodes above, the query from \<open>0\<close> to \<open>3\<close> with width \<open>1\<close> goes
  over node \<open>2\<close>, on channel \<open>0\<close>.
\<close>

lemma duplicate_run2:
  "findShortestPath2 duplicate_graph 0 3 1 = Some (Inr ([(0, 0), (2, 0), (3, 0)], 2))"
proof -
  let ?g = duplicate_graph
  note graph = duplicate_graph_def possible_start_channels2_def CHANNELS_def
  note costs = cost_a cost_b cost_c INF_val_def int32_def
  note filter_a = filter_a [unfolded INF_val_def]
  define st0 where "st0 = fold (init_source2 0) [0..CHANNELS - 1]
                \<lparr>dist2 = (\<lambda>_ _. INF_val), prev2 = (\<lambda>_ _. (-1, -1)),
                 visited2 = (\<lambda>_ _. False), pq2 = []\<rparr>"
  define q0 where "q0 = map (\<lambda>c. (0::int, 0::int, c)) [1..99]"
  have "pq2 st0 = map (\<lambda>c. (0, 0, c)) [0..99]"
    by (simp add: st0_def fold_init_source2_pq CHANNELS_def)
  then have pq0: "pq2 st0 = (0, 0, 0) # q0"
    by (simp add: q0_def upto_rec1 [of 0 99])
  have d0: "dist2 st0 v c = (if v = 0 \<and> 0 \<le> c \<and> c \<le> 99 then 0 else INF_val)" for v c
    by (simp add: st0_def init_source2_fields CHANNELS_def)
  have p0: "prev2 st0 v c = (-1, -1)" for v c
    by (simp add: st0_def init_source2_fields)
  have v0: "\<not> visited2 st0 v c" for v c
    by (simp add: st0_def init_source2_fields)
  define st1 where "st1 = update_state2 1 2 0 0 0 (mark_visited 0 0 (st0\<lparr>pq2 := q0\<rparr>))"
  have v1: "visited2 st1 v c \<longleftrightarrow> v = 0 \<and> c = 0" for v c
    by (auto simp: st1_def mark_visited_def v0)
  have e1: "expand2 ?g 0 1 0 0 0 (mark_visited 0 0 (st0\<lparr>pq2 := q0\<rparr>)) = st1"
    by (simp add: expand2_filter graph filter_a relax2_improve costs d0 v0 st1_def mark_visited_def)
  have A: "search_loop2 ?g 0 3 1 st0 = search_loop2 ?g 0 3 1 st1"
    using search_loop2_expand_step [OF pq0, of 3 ?g 0 1] by (simp add: v0 e1)
  have pq1: "pq2 st1 = map (\<lambda>c. (0, 0, c)) [1..99] @ [(1, 2, 0)]"
    using insort_after_smaller [of q0 "(1, 2, 0)" "[]"]
    by (auto simp: st1_def update_state2_def mark_visited_def q0_def less_prod_def)
  have d1: "dist2 st1 v c = (if v = 2 \<and> c = 0 then 1 else dist2 st0 v c)" for v c
    by (simp add: st1_def mark_visited_def)
  define st2 where "st2 = (fold (mark_visited 0) [1..99] st1)\<lparr>pq2 := [(1, 2, 0)]\<rparr>"
  have B: "search_loop2 ?g 0 3 1 st1 = search_loop2 ?g 0 3 1 st2"
    unfolding st2_def
  proof (rule source_drain2 [OF _ pq1])
    show "distinct [1..(99::int)]" by simp
    show "\<forall>c \<in> set [1..99]. \<not> visited2 st1 0 c" by (simp add: v1)
    show "\<forall>c \<in> set [1..99]. settled2 ?g 0 1 0 0 c st1"
      by (auto simp: settled2_def graph costs d1 d0)
  qed simp
  have v2: "visited2 st2 v c \<longleftrightarrow> v = 0 \<and> 0 \<le> c \<and> c \<le> 99" for v c
    by (auto simp: st2_def fold_mark_visited v1)
  have d2: "dist2 st2 = dist2 st1" and p2: "prev2 st2 = prev2 st1"
    by (simp_all add: st2_def fold_mark_visited)
  define st3 where "st3 = update_state2 2 3 0 2 0 (mark_visited 2 0 (st2\<lparr>pq2 := []\<rparr>))"
  have e3: "expand2 ?g 0 1 1 2 0 (mark_visited 2 0 (st2\<lparr>pq2 := []\<rparr>)) = st3"
    by (simp add: expand2_filter graph relax2_improve relax2_skip costs d0 d1 d2 v2 st3_def
        mark_visited_def)
  have C: "search_loop2 ?g 0 3 1 st2 = search_loop2 ?g 0 3 1 st3"
  proof -
    have "pq2 st2 = (1, 2, 0) # []" by (simp add: st2_def)
    moreover have "\<not> visited2 st2 2 0" by (simp add: v2)
    ultimately have "search_loop2 ?g 0 3 1 st2 =
        search_loop2 ?g 0 3 1 (expand2 ?g 0 1 1 2 0 (mark_visited 2 0 (st2\<lparr>pq2 := []\<rparr>)))"
      by (intro search_loop2_expand_step) simp_all
    then show ?thesis by (simp only: e3)
  qed
  have pq3: "pq2 st3 = (2, 3, 0) # []"
    by (simp add: st3_def update_state2_def mark_visited_def)
  have v3: "\<not> visited2 st3 3 0" by (simp add: st3_def mark_visited_def v2)
  have D: "search_loop2 ?g 0 3 1 st3 = reconstructPath2 (prev2 st3) 0 3 0 2"
    by (rule search_loop2_found_step [OF pq3 v3])
  have p3: "prev2 st3 v c = (if v = 3 \<and> c = 0 then (2, 0) else if v = 2 \<and> c = 0 then (0, 0)
                              else (-1, -1))" for v c
    by (simp add: st3_def st1_def mark_visited_def p2 p0)
  have "reconstructPath2 (prev2 st3) 0 3 0 2 = Some (Inr ([(0, 0), (2, 0), (3, 0)], 2))"
    by (simp add: reconstructPath2_def reconstruct_loop2_step reconstruct_loop2_stop p3)
  with A B C D have "search_loop2 ?g 0 3 1 st0 = Some (Inr ([(0, 0), (2, 0), (3, 0)], 2))"
    by simp
  then show ?thesis
    by (simp add: findShortestPath2_def st0_def) (simp add: duplicate_graph_def)
qed


section \<open>Input validation of the query\<close>

text \<open>
  C7. \<open>findShortestPath\<close> of ChannelGraph.cpp and of ChannelGraph2.cpp checks its arguments
  before it searches: a width outside \<open>{1, 2, 3}\<close> is answered by \<open>invalid_argument\<close>; with
  a width in range, a source or a target outside \<open>[0, node_count)\<close> is answered by
  \<open>out_of_range\<close>. The width is tested first, which settles the query that breaks both
  rules. In every case the result is the exception and no path.
\<close>

theorem findShortestPath_validates:
  "(width < 1 \<or> width > 3 \<longrightarrow>
      findShortestPath g source target width = Some (Inl InvalidArgument) \<and>
      findShortestPath2 g source target width = Some (Inl InvalidArgument)) \<and>
   (1 \<le> width \<and> width \<le> 3 \<and>
      (source < 0 \<or> source \<ge> node_count g \<or> target < 0 \<or> target \<ge> node_count g) \<longrightarrow>
      findShortestPath g source target width = Some (Inl OutOfRange) \<and>
      findShortestPath2 g source target width = Some (Inl OutOfRange))"
  by (auto simp: findShortestPath_def findShortestPath2_def)

theorem findShortestPath_validates_witness:
  "findShortestPath (new_ChannelGraph 3) 0 2 4 = Some (Inl InvalidArgument) \<and>
   findShortestPath2 (new_ChannelGraph 3) 0 2 4 = Some (Inl InvalidArgument) \<and>
   findShortestPath (new_ChannelGraph 3) 0 3 1 = Some (Inl OutOfRange) \<and>
   findShortestPath2 (new_ChannelGraph 3) 0 3 1 = Some (Inl OutOfRange)"
  using findShortestPath_validates [of 4 "new_ChannelGraph 3" 0 2]
        findShortestPath_validates [of 1 "new_ChannelGraph 3" 0 3]
  by (simp add: new_ChannelGraph_def)


section \<open>Channels of the returned path\<close>

text \<open>
  C10. Every channel recorded in a path that \<open>findShortestPath\<close> of ChannelGraph.cpp or of
  ChannelGraph2.cpp returns lies in \<open>[0, CHANNELS - width]\<close>: it is the start of a segment
  of the requested width inside the spectrum. The sentinel \<open>-1\<close> never appears in the
  output of these variants. (For the empty path the statement is void.)
\<close>

theorem findShortestPath_channel_range:
  "(findShortestPath g source target width = Some (Inr (path, cost)) \<longrightarrow>
      (\<forall>(node, ch) \<in> set path. 0 \<le> ch \<and> ch \<le> CHANNELS - width)) \<and>
   (findShortestPath2 g source target width = Some (Inr (path, cost)) \<longrightarrow>
      (\<forall>(node, ch) \<in> set path. 0 \<le> ch \<and> ch \<le> CHANNELS - width))"
proof (intro conjI impI)
  assume "findShortestPath g source target width = Some (Inr (path, cost))"
  then have "search_loop g source target width (init_state source width) = Some (path, cost)"
    by (auto simp: findShortestPath_def split: if_splits)
  from search_loop_in_range [OF this]
  show "\<forall>(node, ch) \<in> set path. 0 \<le> ch \<and> ch \<le> CHANNELS - width"
    by (auto simp: in_range_def)
next
  assume "findShortestPath2 g source target width = Some (Inr (path, cost))"
  from findShortestPath2_in_range [OF this]
  show "\<forall>(node, ch) \<in> set path. 0 \<le> ch \<and> ch \<le> CHANNELS - width"
    by (auto simp: in_range_def)
qed

theorem findShortestPath_channel_range_witness:
  "findShortestPath duplicate_graph 0 1 1 =
     Some (Inr ([(0, 0), (2, 0), (3, 0), (2, 1), (1, 1)], 4)) \<and>
   list_all (\<lambda>(node, ch). 0 \<le> ch \<and> ch \<le> CHANNELS - 1)
     [(0::int, 0::int), (2, 0), (3, 0), (2, 1), (1, 1)] \<and>
   findShortestPath2 duplicate_graph 0 3 1 = Some (Inr ([(0, 0), (2, 0), (3, 0)], 2)) \<and>
   list_all (\<lambda>(node, ch). 0 \<le> ch \<and> ch \<le> CHANNELS - 1) [(0::int, 0::int), (2, 0), (3, 0)]"
  using findShortestPath_channel_range
          [of duplicate_graph 0 1 1 "[(0, 0), (2, 0), (3, 0), (2, 1), (1, 1)]" 4]
        findShortestPath_channel_range [of duplicate_graph 0 3 1 "[(0, 0), (2, 0), (3, 0)]" 2]
        duplicate_query duplicate_run2
  by (simp add: CHANNELS_def)


section \<open>Cost of the returned path\<close>



section \<open>Unreachable targets\<close>



section \<open>Source equal to target\<close>

text \<open>
  C4 says that a query with \<open>source = target\<close> returns \<open>[(source, -1)]\<close> with cost \<open>0\<close>.
  \<open>findMinCostPath\<close> of OptimizedEfficientGraph3.cpp does return \<open>[(source, -1)]\<close> (it
  returns no cost). \<open>findShortestPath\<close> of ChannelGraph.cpp has no sentinel: it takes the
  least queue entry \<open>(0, source, 0)\<close>, so the path is \<open>[(source, 0)]\<close>, with cost \<open>0\<close>.
\<close>

theorem same_node_query_counterexample:
  "findShortestPath unreachable_test_graph 0 0 1 = Some (Inr ([(0, 0)], 0)) \<and>
   findShortestPath unreachable_test_graph 0 0 1 \<noteq> Some (Inr ([(0, -1)], 0))"
proof -
  have "findShortestPath unreachable_test_graph 0 0 1 = Some (Inr ([(0, 0)], 0))"
    by (rule findShortestPath_same_node) (simp_all add: unreachable_test_graph_def)
  then show ?thesis by simp
qed


text \<open>
  C4, amended. With \<open>source = target\<close>, a valid width and the source in range,
  \<open>findShortestPath\<close> of ChannelGraph.cpp returns the one-element path \<open>[(source, 0)]\<close>
  with cost \<open>0\<close>; \<open>findMinCostPath\<close> of OptimizedEfficientGraph3.cpp returns
  \<open>[(source, -1)]\<close>, whatever the graph and the order of the queue. No edge is traversed.
\<close>

theorem same_node_query:
  "(1 \<le> width \<and> width \<le> 3 \<and> 0 \<le> source \<and> source < node_count g \<longrightarrow>
      findShortestPath g source source width = Some (Inr ([(source, 0)], 0))) \<and>
   findMinCostPath3 pick og source source = Some [(source, -1)]"
  using findShortestPath_same_node [of width source g]
  by (simp add: findMinCostPath3_def)

theorem same_node_query_witness:
  "findShortestPath unreachable_test_graph 2 2 3 = Some (Inr ([(2, 0)], 0)) \<and>
   findMinCostPath3 (\<lambda>q. (hd q, tl q)) (new_OptimizedEfficientGraph3 1) 0 0 = Some [(0, -1)]"
  using same_node_query [of 3 2 unreachable_test_graph "\<lambda>q. (hd q, tl q)"
      "new_OptimizedEfficientGraph3 1"]
    same_node_query [of 3 0 unreachable_test_graph "\<lambda>q. (hd q, tl q)"
      "new_OptimizedEfficientGraph3 1"]
  by (simp add: unreachable_test_graph_def)


section \<open>Validation at construction\<close>

lemma addEdge_success:
  assumes "0 \<le> u" "u < node_count g" "0 \<le> v" "v < node_count g"
    and "int (length costs) = CHANNELS" "length (adj_list g) = nat (node_count g)"
  shows "\<exists>g'. addEdge g u v costs = Inr g' \<and> node_count g' = node_count g \<and>
           node_support_convert g' = node_support_convert g \<and>
           length (adj_list g') = length (adj_list g) \<and>
           (u \<noteq> v \<longrightarrow>
              adj_list g' ! nat u = adj_list g ! nat u @ [\<lparr>to = v, channel_costs = costs\<rparr>] \<and>
              adj_list g' ! nat v = adj_list g ! nat v @ [\<lparr>to = u, channel_costs = costs\<rparr>]) \<and>
           (u = v \<longrightarrow>
              adj_list g' ! nat u =
                adj_list g ! nat u @ [\<lparr>to = u, channel_costs = costs\<rparr>, \<lparr>to = u, channel_costs = costs\<rparr>]) \<and>
           (\<forall>k. k \<noteq> nat u \<and> k \<noteq> nat v \<longrightarrow> adj_list g' ! k = adj_list g ! k)"
  using assms by (auto simp: addEdge_def emplace_edge_def nth_list_update)

lemma emplace_edge_all:
  assumes "\<forall>es \<in> set al. \<forall>x \<in> set es. P x" "P e"
  shows "\<forall>es \<in> set (emplace_edge u e al). \<forall>x \<in> set es. P x"
proof (cases "nat u < length al")
  case False
  then have "emplace_edge u e al = al" by (simp add: emplace_edge_def list_update_beyond)
  with assms(1) show ?thesis by simp
next
  case True
  show ?thesis
  proof (intro ballI)
    fix es x assume es: "es \<in> set (emplace_edge u e al)" and x: "x \<in> set es"
    from es set_update_subset_insert [of al "nat u" "al ! nat u @ [e]"]
    have "es = al ! nat u @ [e] \<or> es \<in> set al" by (auto simp: emplace_edge_def)
    then show "P x"
    proof
      assume "es = al ! nat u @ [e]"
      with x have "x \<in> set (al ! nat u) \<or> x = e" by auto
      with assms True show ?thesis using nth_mem [OF True] by blast
    next
      assume "es \<in> set al"
      with assms(1) x show ?thesis by blast
    qed
  qed
qed

lemma addEdge_valid:
  assumes "valid_graph g" "addEdge g u v costs = Inr g'"
  shows "valid_graph g'"
proof -
  let ?P = "\<lambda>e. 0 \<le> to e \<and> to e < node_count g \<and> int (length (channel_costs e)) = CHANNELS"
  from assms(2) have r: "0 \<le> u" "u < node_count g" "0 \<le> v" "v < node_count g"
    "int (length costs) = CHANNELS"
    and g': "g' = g\<lparr>adj_list := emplace_edge v \<lparr>to = u, channel_costs = costs\<rparr>
                (emplace_edge u \<lparr>to = v, channel_costs = costs\<rparr> (adj_list g))\<rparr>"
    by (auto simp: addEdge_def split: if_splits)
  let ?a1 = "emplace_edge u \<lparr>to = v, channel_costs = costs\<rparr> (adj_list g)"
  let ?a2 = "emplace_edge v \<lparr>to = u, channel_costs = costs\<rparr> ?a1"
  from assms(1) have a0: "\<forall>es \<in> set (adj_list g). \<forall>x \<in> set es. ?P x"
    by (simp add: valid_graph_def)
  have a1: "\<forall>es \<in> set ?a1. \<forall>x \<in> set es. ?P x"
    by (rule emplace_edge_all [where P = ?P]) (use a0 r in simp_all)
  have a2: "\<forall>es \<in> set ?a2. \<forall>x \<in> set es. ?P x"
    by (rule emplace_edge_all [where P = ?P]) (use a1 r in simp_all)
  have "length ?a2 = length (adj_list g)" by (simp add: emplace_edge_def)
  with a2 assms(1) show ?thesis
    unfolding g' valid_graph_def by simp
qed


text \<open>
  C8 says that \<open>addEdge\<close> and the setter of the conversion flag fail with a range error
  for a node out of bounds. ChannelGraph.cpp does; the class of OptimizedEfficientGraph1.cpp
  does not: \<open>setChannelSwitchSupport\<close> ignores such a node and returns normally.
\<close>

theorem construction_validation_counterexample:
  "setChannelSwitchSupport3 (new_OptimizedEfficientGraph3 3) 5 True =
     Inr (new_OptimizedEfficientGraph3 3)"
  by (simp add: setChannelSwitchSupport3_def new_OptimizedEfficientGraph3_def)


text \<open>
  C8, amended. In ChannelGraph.cpp, \<open>addEdge\<close> fails with \<open>out_of_range\<close> when \<open>u\<close> or
  \<open>v\<close> is outside \<open>[0, node_count)\<close> and otherwise with \<open>invalid_argument\<close> when the cost
  vector does not have \<open>CHANNELS\<close> entries; on success (on a valid graph) it appends an edge
  to \<open>v\<close> to the adjacency list of \<open>u\<close> and an edge to \<open>u\<close> to that of \<open>v\<close>, both with
  the given cost vector, changes nothing else and leaves the graph valid;
  \<open>setNodeConversion\<close> fails with \<open>out_of_range\<close> for a node out of bounds and sets the flag
  otherwise. In OptimizedEfficientGraph1.cpp, \<open>addEdge\<close> fails with
  \<open>invalid_argument\<close> for a cost vector of the wrong length, whatever the nodes, and for
  \<open>u\<close> and \<open>v\<close> in \<open>[0, n)\<close> and \<open>CHANNELS\<close> costs it inserts the same symmetric pair of
  edges with the given cost vector and changes nothing else; \<open>setChannelSwitchSupport\<close>
  returns without error and without effect for a node out of bounds.
\<close>

theorem construction_validation:
  "(u < 0 \<or> u \<ge> node_count g \<or> v < 0 \<or> v \<ge> node_count g \<longrightarrow>
      addEdge g u v costs = Inl OutOfRange) \<and>
   (0 \<le> u \<and> u < node_count g \<and> 0 \<le> v \<and> v < node_count g \<and> int (length costs) \<noteq> CHANNELS \<longrightarrow>
      addEdge g u v costs = Inl InvalidArgument) \<and>
   (0 \<le> u \<and> u < node_count g \<and> 0 \<le> v \<and> v < node_count g \<and> int (length costs) = CHANNELS \<and>
    valid_graph g \<longrightarrow>
      (\<exists>g'. addEdge g u v costs = Inr g' \<and> valid_graph g' \<and> node_count g' = node_count g \<and>
         node_support_convert g' = node_support_convert g \<and>
         (u \<noteq> v \<longrightarrow>
            adj_list g' ! nat u = adj_list g ! nat u @ [\<lparr>to = v, channel_costs = costs\<rparr>] \<and>
            adj_list g' ! nat v = adj_list g ! nat v @ [\<lparr>to = u, channel_costs = costs\<rparr>]) \<and>
         (u = v \<longrightarrow>
            adj_list g' ! nat u =
              adj_list g ! nat u @ [\<lparr>to = u, channel_costs = costs\<rparr>, \<lparr>to = u, channel_costs = costs\<rparr>]) \<and>
         (\<forall>k. k \<noteq> nat u \<and> k \<noteq> nat v \<longrightarrow> adj_list g' ! k = adj_list g ! k))) \<and>
   (node < 0 \<or> node \<ge> node_count g \<longrightarrow> setNodeConversion g node support = Inl OutOfRange) \<and>
   (0 \<le> node \<and> node < node_count g \<longrightarrow>
      setNodeConversion g node support =
        Inr (g\<lparr>node_support_convert := (node_support_convert g)[nat node := support]\<rparr>)) \<and>
   (node < 0 \<or> node \<ge> n3 og \<longrightarrow> setChannelSwitchSupport3 og node support = Inr og) \<and>
   (int (length costs) \<noteq> CHANNELS \<longrightarrow> addEdge3 og u v costs = Inl InvalidArgument) \<and>
   (0 \<le> u \<and> u < n3 og \<and> 0 \<le> v \<and> v < n3 og \<and> int (length costs) = CHANNELS \<and>
    length (adj3 og) = nat (n3 og) \<longrightarrow>
      (\<exists>og'. addEdge3 og u v costs = Inr og' \<and> n3 og' = n3 og \<and>
         supports_switch3 og' = supports_switch3 og \<and>
         (u \<noteq> v \<longrightarrow>
            adj3 og' ! nat u = adj3 og ! nat u @ [\<lparr>to3 = v, costs3 = costs\<rparr>] \<and>
            adj3 og' ! nat v = adj3 og ! nat v @ [\<lparr>to3 = u, costs3 = costs\<rparr>]) \<and>
         (u = v \<longrightarrow>
            adj3 og' ! nat u =
              adj3 og ! nat u @ [\<lparr>to3 = u, costs3 = costs\<rparr>, \<lparr>to3 = u, costs3 = costs\<rparr>]) \<and>
         (\<forall>k. k \<noteq> nat u \<and> k \<noteq> nat v \<longrightarrow> adj3 og' ! k = adj3 og ! k)))"
proof -
  have e3: "\<exists>og'. addEdge3 og u v costs = Inr og' \<and> n3 og' = n3 og \<and>
         supports_switch3 og' = supports_switch3 og \<and>
         (u \<noteq> v \<longrightarrow>
            adj3 og' ! nat u = adj3 og ! nat u @ [\<lparr>to3 = v, costs3 = costs\<rparr>] \<and>
            adj3 og' ! nat v = adj3 og ! nat v @ [\<lparr>to3 = u, costs3 = costs\<rparr>]) \<and>
         (u = v \<longrightarrow>
            adj3 og' ! nat u =
              adj3 og ! nat u @ [\<lparr>to3 = u, costs3 = costs\<rparr>, \<lparr>to3 = u, costs3 = costs\<rparr>]) \<and>
         (\<forall>k. k \<noteq> nat u \<and> k \<noteq> nat v \<longrightarrow> adj3 og' ! k = adj3 og ! k)"
    if "0 \<le> u" "u < n3 og" "0 \<le> v" "v < n3 og" "int (length costs) = CHANNELS"
      "length (adj3 og) = nat (n3 og)"
    using that by (auto simp: addEdge3_def Let_def nth_list_update)
  have "\<exists>g'. addEdge g u v costs = Inr g' \<and> valid_graph g' \<and> node_count g' = node_count g \<and>
         node_support_convert g' = node_support_convert g \<and>
         (u \<noteq> v \<longrightarrow>
            adj_list g' ! nat u = adj_list g ! nat u @ [\<lparr>to = v, channel_costs = costs\<rparr>] \<and>
            adj_list g' ! nat v = adj_list g ! nat v @ [\<lparr>to = u, channel_costs = costs\<rparr>]) \<and>
         (u = v \<longrightarrow>
            adj_list g' ! nat u =
              adj_list g ! nat u @ [\<lparr>to = u, channel_costs = costs\<rparr>, \<lparr>to = u, channel_costs = costs\<rparr>]) \<and>
         (\<forall>k. k \<noteq> nat u \<and> k \<noteq> nat v \<longrightarrow> adj_list g' ! k = adj_list g ! k)"
    if "0 \<le> u" "u < node_count g" "0 \<le> v" "v < node_count g" "int (length costs) = CHANNELS"
      "valid_graph g"
  proof -
    from that(6) have "length (adj_list g) = nat (node_count g)" by (simp add: valid_graph_def)
    from addEdge_success [OF that(1-5) this] obtain g' where g': "addEdge g u v costs = Inr g'"
      "node_count g' = node_count g" "node_support_convert g' = node_support_convert g"
      "u \<noteq> v \<longrightarrow>
         adj_list g' ! nat u = adj_list g ! nat u @ [\<lparr>to = v, channel_costs = costs\<rparr>] \<and>
         adj_list g' ! nat v = adj_list g ! nat v @ [\<lparr>to = u, channel_costs = costs\<rparr>]"
      "u = v \<longrightarrow>
         adj_list g' ! nat u =
           adj_list g ! nat u @ [\<lparr>to = u, channel_costs = costs\<rparr>, \<lparr>to = u, channel_costs = costs\<rparr>]"
      "\<forall>k. k \<noteq> nat u \<and> k \<noteq> nat v \<longrightarrow> adj_list g' ! k = adj_list g ! k"
      by blast
    with addEdge_valid [OF that(6) g'(1)] show ?thesis by blast
  qed
  moreover have "u < 0 \<or> u \<ge> node_count g \<or> v < 0 \<or> v \<ge> node_count g \<longrightarrow>
      addEdge g u v costs = Inl OutOfRange"
    by (auto simp: addEdge_def)
  moreover have "0 \<le> u \<and> u < node_count g \<and> 0 \<le> v \<and> v < node_count g \<and>
      int (length costs) \<noteq> CHANNELS \<longrightarrow> addEdge g u v costs = Inl InvalidArgument"
    by (auto simp: addEdge_def)
  moreover have "node < 0 \<or> node \<ge> node_count g \<longrightarrow>
      setNodeConversion g node support = Inl OutOfRange"
    by (auto simp: setNodeConversion_def)
  moreover have "0 \<le> node \<and> node < node_count g \<longrightarrow>
      setNodeConversion g node support =
        Inr (g\<lparr>node_support_convert := (node_support_convert g)[nat node := support]\<rparr>)"
    by (auto simp: setNodeConversion_def)
  moreover have "node < 0 \<or> node \<ge> n3 og \<longrightarrow> setChannelSwitchSupport3 og node support = Inr og"
    by (auto simp: setChannelSwitchSupport3_def)
  moreover have "int (length costs) \<noteq> CHANNELS \<longrightarrow> addEdge3 og u v costs = Inl InvalidArgument"
    by (auto simp: addEdge3_def)
  ultimately show ?thesis using e3 by blast
qed


theorem construction_validation_witness:
  "addEdge (new_ChannelGraph 3) 0 3 (replicate 100 1) = Inl OutOfRange \<and>
   addEdge (new_ChannelGraph 3) 0 1 (replicate 99 1) = Inl InvalidArgument \<and>
   addEdge (new_ChannelGraph 3) 0 1 (replicate 100 1) = Inr unreachable_test_graph \<and>
   setNodeConversion (new_ChannelGraph 3) 3 True = Inl OutOfRange \<and>
   setNodeConversion (new_ChannelGraph 3) 2 True =
     Inr ((new_ChannelGraph 3)\<lparr>node_support_convert := [False, False, True]\<rparr>) \<and>
   setChannelSwitchSupport3 (new_OptimizedEfficientGraph3 3) (-1) True =
     Inr (new_OptimizedEfficientGraph3 3) \<and>
   addEdge3 (new_OptimizedEfficientGraph3 3) 0 1 (replicate 99 1) = Inl InvalidArgument \<and>
   addEdge3 (new_OptimizedEfficientGraph3 3) 0 1 (replicate 100 1) =
     Inr \<lparr>n3 = 3, supports_switch3 = [False, False, False],
          adj3 = [[\<lparr>to3 = 1, costs3 = replicate 100 1\<rparr>],
                  [\<lparr>to3 = 0, costs3 = replicate 100 1\<rparr>], []]\<rparr>"
proof -
  have b3: "addEdge3 (new_OptimizedEfficientGraph3 3) 0 1 (replicate 100 1) =
     Inr \<lparr>n3 = 3, supports_switch3 = [False, False, False],
          adj3 = [[\<lparr>to3 = 1, costs3 = replicate 100 1\<rparr>],
                  [\<lparr>to3 = 0, costs3 = replicate 100 1\<rparr>], []]\<rparr>"
    by (simp add: addEdge3_def new_OptimizedEfficientGraph3_def CHANNELS_def numeral_3_eq_3)
  have v: "valid_graph (new_ChannelGraph 3)"
    by (simp add: valid_graph_def new_ChannelGraph_def)
  note t = construction_validation [where g = "new_ChannelGraph 3"
      and og = "new_OptimizedEfficientGraph3 3" and support = True]
  from t [of 0 3 "replicate 100 1" 3] t [of 0 1 "replicate 99 1" 2] t [of 0 1 "replicate 100 1" "-1"]
    v unreachable_test_graph_built b3
  show ?thesis
    by (simp add: new_ChannelGraph_def new_OptimizedEfficientGraph3_def CHANNELS_def
        numeral_3_eq_3)
qed


section \<open>Integrity of the reconstructed path\<close>

text \<open>
  C9 says that a reconstruction that cannot reach the source, or that meets a node twice,
  ends in an exception and never in a truncated path. \<open>reconstructPath\<close> of
  OptimizedEfficientGraph3.cpp throws nothing: where the predecessor map has no entry for a
  state it leaves the loop and returns what it has collected, here the target alone.
\<close>

theorem reconstruction_integrity_counterexample:
  "reconstructPath3
     (Some \<lparr>cost_s = 3, node_s = 2, channel_s = 0, consecutive_s = 1, visited_s = {0, 2}\<rparr>)
     Map.empty 0 2 = Some [(2, -1)]"
  by (simp add: reconstructPath3_truncated path_entry_def int32_def)


text \<open>
  C9, amended. \<open>reconstructPath\<close> of ChannelGraph2.cpp returns a path only if it is the
  whole chain of predecessors from the target back to a state without predecessor, has no
  node twice and starts at the source; it ends, with that path or with an exception, whenever
  the predecessor table holds only \<open>-1\<close> and nodes below a bound; so a path returned by
  \<open>findShortestPath\<close> of ChannelGraph2.cpp is empty or starts at the source and has no
  node twice. \<open>reconstructPath\<close> of OptimizedEfficientGraph3.cpp does not signal a broken
  chain: from a state that is not at the source and has no entry in the predecessor map it
  returns the one-element path of that state.
\<close>

theorem reconstruction_integrity:
  "(reconstructPath2 prv source target target_ch cost = Some (Inr (path, k)) \<longrightarrow>
      k = cost \<and> path \<noteq> [] \<and> fst (hd path) = source \<and> distinct (map fst path) \<and>
      is_chain prv target target_ch (rev path)) \<and>
   ((\<forall>v c. -1 \<le> fst (prv v c) \<and> fst (prv v c) < bound) \<and> -1 \<le> target \<and> target < bound \<longrightarrow>
      (\<exists>r. reconstructPath2 prv source target target_ch cost = Some r)) \<and>
   (findShortestPath2 g source_b target_b width = Some (Inr (path_b, cost_b)) \<longrightarrow>
      path_b = [] \<or> (fst (hd path_b) = source_b \<and> distinct (map fst path_b))) \<and>
   (node_s f \<noteq> source_c \<and>
    predecessor (state_key (node_s f) (channel_s f) (consecutive_s f)) = None \<longrightarrow>
      reconstructPath3 (Some f) predecessor source_c target_c = Some [path_entry source_c target_c f])"
  using reconstructPath2_sound [of prv source target target_ch cost path k]
    reconstructPath2_terminates [of prv bound target source target_ch cost]
    findShortestPath2_sound [of g source_b target_b width path_b cost_b]
    reconstructPath3_truncated [of f source_c predecessor target_c]
  by blast

theorem reconstruction_integrity_witness:
  "reconstructPath2 chain_prev 0 2 0 8 = Some (Inr ([(0, 0), (1, 0), (2, 0)], 8)) \<and>
   is_chain chain_prev 2 0 [(2, 0), (1, 0), (0, 0)] \<and>
   reconstructPath2 cycle_prev 0 2 0 8 = Some (Inl RuntimeError) \<and>
   findShortestPath2 unreachable_test_graph 2 2 3 = Some (Inr ([(2, 0)], 0)) \<and>
   reconstructPath3
     (Some \<lparr>cost_s = 3, node_s = 2, channel_s = 4, consecutive_s = 2, visited_s = {0, 1, 2}\<rparr>)
     Map.empty 0 5 = Some [(2, 3)]"
proof -
  have b: "\<forall>v c. -1 \<le> fst (cycle_prev v c) \<and> fst (cycle_prev v c) < 3"
    by (simp add: cycle_prev_def)
  have s: "findShortestPath2 unreachable_test_graph 2 2 3 = Some (Inr ([(2, 0)], 0))"
    by (rule findShortestPath2_same_node) (simp_all add: unreachable_test_graph_def)
  note f = reconstruction_integrity [where bound = 3 and g = unreachable_test_graph
      and source_b = 2 and target_b = 2 and width = 3 and path_b = "[(2, 0)]" and cost_b = 0
      and f = "\<lparr>cost_s = 3, node_s = 2, channel_s = 4, consecutive_s = 2, visited_s = {0, 1, 2}\<rparr>"
      and predecessor = Map.empty and source_c = 0 and target_c = 5]
  from f [of chain_prev 0 2 0 8 "[(0, 0), (1, 0), (2, 0)]" 8] f [of cycle_prev 0 2 0 8 "[]" 0]
    reconstructPath2_chain_prev reconstructPath2_cycle_prev b s
  show ?thesis by (simp add: path_entry_def int32_def)
qed

end
